theory Spec2Isabelle
  imports Main "HOL-Library.Multiset"
begin

section \<open>Data model of \<open>App.tsx\<close>\<close>

text \<open>
  The catalog of work items, \<open>const DECADES\<close>, and the worker count
  \<open>const concurrencyLimit = 2\<close> of \<open>handleGenerateClick\<close>.
\<close>

definition DECADES :: "string list" where
  "DECADES = [''1950s'', ''1960s'', ''1970s'', ''1980s'', ''1990s'', ''2000s'']"

definition concurrencyLimit :: nat where
  "concurrencyLimit = 2"

text \<open>
  \<open>type ImageStatus = 'pending' | 'done' | 'error'\<close> and
  \<open>interface GeneratedImage { status; url?; error? }\<close>. An optional
  property that an object literal does not mention is absent: \<open>None\<close>.
\<close>

datatype ImageStatus = Pending | Done | Error

record GeneratedImage =
  status :: ImageStatus
  url :: "string option"
  error :: "string option"

datatype AppState = idle | image_uploaded | generating | results_shown

text \<open>
  The state cells of the component (\<open>useState\<close>). A
  \<open>Record<string, T>\<close> is a JavaScript object: its own string keys are
  distinct and are enumerated in the order they were first created, so it is a list
  of key/value pairs. (Keys that are canonical array indices would be enumerated
  first; the program only ever uses members of \<open>DECADES\<close> as keys, and none
  of them is one.)
\<close>

record state =
  uploadedImage :: "string option"
  generatedImages :: "(string \<times> GeneratedImage) list"
  customCaptions :: "(string \<times> string) list"
  isLoading :: bool
  isDownloading :: bool
  appState :: AppState
  orderedDecades :: "string list"

text \<open>
  \<open>{...prev, [k]: v}\<close> and \<open>obj[k] = v\<close>: an existing key keeps its
  place and gets the new value, a new key is added at the end.
\<close>

fun assign :: "string \<Rightarrow> 'v \<Rightarrow> (string \<times> 'v) list \<Rightarrow> (string \<times> 'v) list" where
  "assign k v [] = [(k, v)]"
| "assign k v (p # ps) = (if fst p = k then (k, v) # ps else p # assign k v ps)"

text \<open>\<open>obj[k]\<close>, \<open>undefined\<close> being \<open>None\<close>.\<close>

definition lookup :: "(string \<times> 'v) list \<Rightarrow> string \<Rightarrow> 'v option" where
  "lookup obj k = map_of obj k"

text \<open>JavaScript truthiness of a \<open>string | null | undefined\<close> value.\<close>

definition truthy :: "string option \<Rightarrow> bool" where
  "truthy v = (case v of None \<Rightarrow> False | Some t \<Rightarrow> t \<noteq> [])"

text \<open>The three object literals the program ever stores in \<open>generatedImages\<close>.\<close>

definition pendingImage :: GeneratedImage where
  "pendingImage = \<lparr>status = Pending, url = None, error = None\<rparr>"

definition doneImage :: "string \<Rightarrow> GeneratedImage" where
  "doneImage resultUrl = \<lparr>status = Done, url = Some resultUrl, error = None\<rparr>"

definition errorImage :: "string \<Rightarrow> GeneratedImage" where
  "errorImage errorMessage = \<lparr>status = Error, url = None, error = Some errorMessage\<rparr>"

section \<open>The handlers that run to completion\<close>

text \<open>
  \<open>reader.onloadend\<close> of \<open>handleImageUpload\<close>; \<open>result\<close> is
  \<open>reader.result\<close>.
\<close>

definition handleImageUpload_onloadend :: "string option \<Rightarrow> state \<Rightarrow> state" where
  "handleImageUpload_onloadend result s =
     s\<lparr>uploadedImage := result, appState := image_uploaded, generatedImages := []\<rparr>"

definition handleCaptionChange :: "string \<Rightarrow> string \<Rightarrow> state \<Rightarrow> state" where
  "handleCaptionChange decade newCaption s =
     s\<lparr>customCaptions := assign decade newCaption (customCaptions s)\<rparr>"

definition handleReset :: "state \<Rightarrow> state" where
  "handleReset s =
     s\<lparr>uploadedImage := None, generatedImages := [], customCaptions := [],
       appState := idle, orderedDecades := DECADES\<rparr>"

section \<open>The Generator Client and the single-item protocol\<close>

text \<open>
  \<open>generateDecadeImage\<close> lives in \<open>services/geminiService\<close>; the
  program only sees how its promise settles: fulfilled with a string, or rejected,
  with an \<open>Error\<close> that carries a message (\<open>Some\<close>) or with any other
  value (\<open>None\<close>).
\<close>

datatype outcome = Resolved string | Rejected "string option"

definition prompt :: "string \<Rightarrow> string" where
  "prompt decade =
     ''Reimagine the person in this photo in the style of the '' @ decade @
     ''. This includes clothing, hairstyle, photo quality, and the overall aesthetic of that decade. The output must be a photorealistic image showing the person clearly.''"

text \<open>
  The code after \<open>await generateDecadeImage(...)\<close>, the same in
  \<open>processDecade\<close> and in \<open>handleRegenerateDecade\<close>: the \<open>try\<close>
  branch stores the \<open>done\<close> literal, the \<open>catch\<close> branch the
  \<open>error\<close> literal.
\<close>

definition settledImage :: "outcome \<Rightarrow> GeneratedImage" where
  "settledImage out =
     (case out of
        Resolved resultUrl \<Rightarrow> doneImage resultUrl
      | Rejected (Some message) \<Rightarrow> errorImage message
      | Rejected None \<Rightarrow> errorImage ''An unknown error occurred.'')"

definition imageSettled :: "string \<Rightarrow> outcome \<Rightarrow> state \<Rightarrow> state" where
  "imageSettled decade out s =
     s\<lparr>generatedImages := assign decade (settledImage out) (generatedImages s)\<rparr>"

section \<open>The batch and the whole program as a transition system\<close>

text \<open>
  One worker of \<open>handleGenerateClick\<close> (an \<open>async\<close> arrow function) is
  either running, suspended at \<open>await processDecade(decade)\<close> with the
  generator call for \<open>decade\<close> in flight, or has returned.
\<close>

datatype worker = Running | Awaiting string | Finished

text \<open>
  One call of \<open>handleGenerateClick\<close> that got past its guard: the queue and
  the source image its closures share, its workers, and whether the code after
  \<open>await Promise.all(workers)\<close> has run. \<open>claimed\<close> and
  \<open>completed\<close> are history: which worker shifted which identifier off the
  queue, and which \<open>processDecade\<close> calls have returned, in order.
\<close>

record batch =
  decadesQueue :: "string list"
  workers :: "worker list"
  photo :: string
  claimed :: "(nat \<times> string) list"
  completed :: "(nat \<times> string) list"
  resolved :: bool

text \<open>
  Who made a call of \<open>generateDecadeImage\<close>: worker \<open>w\<close> of batch
  \<open>b\<close>, in \<open>processDecade\<close>, or \<open>handleRegenerateDecade\<close>.
\<close>

datatype caller = ByWorker nat nat | ByRegeneration

text \<open>
  The program between two events. \<open>app\<close> holds the current values of the
  state cells: \<open>setX(v)\<close> overwrites a cell, \<open>setX(prev => ...)\<close>
  updates it from its current value. \<open>rendered\<close> holds the values of the
  cells at the last render: the handlers are closures created by that render, so
  a state cell a handler reads by name (\<open>uploadedImage\<close>,
  \<open>generatedImages\<close>) has the value it had then, also after the handler
  itself has set it. Further: the batches started so far, the identifiers of the
  \<open>handleRegenerateDecade\<close> calls that are suspended at their
  \<open>await\<close>, and the log of every \<open>generateDecadeImage(image,
  prompt)\<close> call made so far, with its caller.
\<close>

record system =
  rendered :: state
  app :: state
  batches :: "batch list"
  regenerations :: "string list"
  calls :: "(caller \<times> string \<times> string) list"

text \<open>
  The \<open>while (decadesQueue.length > 0)\<close> loop of a worker up to its next
  \<open>await\<close>: it shifts identifiers off the queue until one is truthy
  (\<open>if (decade)\<close>) or the queue is empty.
\<close>

fun shiftNext :: "string list \<Rightarrow> string option \<times> string list" where
  "shiftNext [] = (None, [])"
| "shiftNext (decade # q) = (if decade \<noteq> [] then (Some decade, q) else shiftNext q)"

text \<open>
  Worker \<open>w\<close> runs until it suspends or returns: what this does to the
  state the batch's closures share.
\<close>

definition worker_loop :: "nat \<Rightarrow> batch \<Rightarrow> batch" where
  "worker_loop w B =
     (case shiftNext (decadesQueue B) of
        (None, q) \<Rightarrow> B\<lparr>decadesQueue := q, workers := (workers B)[w := Finished]\<rparr>
      | (Some decade, q) \<Rightarrow>
          B\<lparr>decadesQueue := q, workers := (workers B)[w := Awaiting decade],
            claimed := claimed B @ [(w, decade)]\<rparr>)"

text \<open>
  The same for the program: \<open>processDecade\<close> runs synchronously up to its
  own \<open>await\<close>, so the generator call for the shifted identifier is made at
  once.
\<close>

definition worker_run :: "nat \<Rightarrow> nat \<Rightarrow> system \<Rightarrow> system" where
  "worker_run b w s =
     (let B = batches s ! b in
      s\<lparr>batches := (batches s)[b := worker_loop w B],
        calls := calls s @
          (case fst (shiftNext (decadesQueue B)) of
             None \<Rightarrow> []
           | Some decade \<Rightarrow> [(ByWorker b w, photo B, prompt decade)])\<rparr>)"

text \<open>
  \<open>handleGenerateClick\<close> up to \<open>await Promise.all(workers)\<close>: the
  guard (on the \<open>uploadedImage\<close> of the render, which is also the image
  \<open>processDecade\<close> passes on), the state updates, and \<open>Array(concurrencyLimit).fill(null).map(async
  ...)\<close>, which starts the workers one after the other, each running until its
  first \<open>await\<close>.
\<close>

definition initialImages :: "(string \<times> GeneratedImage) list" where
  "initialImages = foldl (\<lambda>acc decade. assign decade pendingImage acc) [] DECADES"

definition newBatch :: "string \<Rightarrow> batch" where
  "newBatch img =
     \<lparr>decadesQueue = DECADES, workers = replicate concurrencyLimit Running,
      photo = img, claimed = [], completed = [], resolved = False\<rparr>"

definition handleGenerateClick :: "system \<Rightarrow> system" where
  "handleGenerateClick s =
     (case uploadedImage (rendered s) of
        None \<Rightarrow> s
      | Some img \<Rightarrow>
          if img = [] then s
          else
            let b = length (batches s);
                s1 = s\<lparr>app := (app s)\<lparr>isLoading := True, appState := generating,
                                        generatedImages := initialImages\<rparr>,
                       batches := batches s @ [newBatch img]\<rparr>
            in foldl (\<lambda>s' w. worker_run b w s') s1 [0..<concurrencyLimit])"

text \<open>
  The generator call of worker \<open>w\<close> settles: \<open>processDecade\<close> stores
  the result and returns, and the worker is ready to go round its loop again.
\<close>

definition worker_settled :: "nat \<Rightarrow> nat \<Rightarrow> outcome \<Rightarrow> system \<Rightarrow> system option" where
  "worker_settled b w out s =
     (if b < length (batches s) \<and> w < length (workers (batches s ! b)) then
        (let B = batches s ! b in
         case workers B ! w of
           Awaiting decade \<Rightarrow>
             Some (s\<lparr>app := imageSettled decade out (app s),
                     batches := (batches s)[b := B\<lparr>workers := (workers B)[w := Running],
                                                      completed := completed B @ [(w, decade)]\<rparr>]\<rparr>)
         | _ \<Rightarrow> None)
      else None)"

definition worker_resumed :: "nat \<Rightarrow> nat \<Rightarrow> system \<Rightarrow> system option" where
  "worker_resumed b w s =
     (if b < length (batches s) \<and> w < length (workers (batches s ! b))
         \<and> workers (batches s ! b) ! w = Running
      then Some (worker_run b w s) else None)"

text \<open>
  \<open>await Promise.all(workers)\<close> resolves once every worker has returned; then
  \<open>setIsLoading(false); setAppState('results-shown')\<close>.
\<close>

definition batch_resolved :: "nat \<Rightarrow> system \<Rightarrow> system option" where
  "batch_resolved b s =
     (if b < length (batches s) \<and> \<not> resolved (batches s ! b)
         \<and> list_all (\<lambda>w. w = Finished) (workers (batches s ! b))
      then Some (s\<lparr>app := (app s)\<lparr>isLoading := False, appState := results_shown\<rparr>,
                   batches := (batches s)[b := (batches s ! b)\<lparr>resolved := True\<rparr>]\<rparr>)
      else None)"

text \<open>
  \<open>handleRegenerateDecade\<close> up to its \<open>await\<close>: the two guards, the
  \<open>pending\<close> literal, the generator call. Both guards read the cells as
  the render captured them, \<open>generatedImages[decade]?.status\<close> being
  \<open>undefined\<close> for an identifier without an entry; the update is made
  from the current value (\<open>prev\<close>).
\<close>

definition handleRegenerateDecade :: "string \<Rightarrow> system \<Rightarrow> system" where
  "handleRegenerateDecade decade s =
     (case uploadedImage (rendered s) of
        None \<Rightarrow> s
      | Some img \<Rightarrow>
          if img = [] then s
          else if map_option status (lookup (generatedImages (rendered s)) decade) = Some Pending
          then s
          else s\<lparr>app := (app s)\<lparr>generatedImages :=
                                      assign decade pendingImage (generatedImages (app s))\<rparr>,
                 regenerations := regenerations s @ [decade],
                 calls := calls s @ [(ByRegeneration, img, prompt decade)]\<rparr>)"

text \<open>The \<open>i\<close>-th suspended regeneration settles and its handler returns.\<close>

definition regeneration_settled :: "nat \<Rightarrow> outcome \<Rightarrow> system \<Rightarrow> system option" where
  "regeneration_settled i out s =
     (if i < length (regenerations s) then
        Some (s\<lparr>app := imageSettled (regenerations s ! i) out (app s),
                regenerations := take i (regenerations s) @ drop (Suc i) (regenerations s)\<rparr>)
      else None)"

text \<open>
  What can happen next: the user interface calls a handler (the cards it renders
  pass members of \<open>DECADES\<close> to \<open>handleRegenerateDecade\<close> and
  \<open>handleCaptionChange\<close>), a file has been read, a generator call settles, a
  suspended worker or \<open>handleGenerateClick\<close> itself is resumed, the
  component is rendered again and its handlers close over the current state. An
  event that cannot happen in a state gives \<open>None\<close>.
\<close>

datatype event =
    FileLoaded "string option"
  | GenerateClick
  | RegenerateDecade string
  | CaptionChange string string
  | Reset
  | WorkerSettled nat nat outcome
  | WorkerResumed nat nat
  | BatchResolved nat
  | RegenerationSettled nat outcome
  | Rendered

fun exec :: "system \<Rightarrow> event \<Rightarrow> system option" where
  "exec s (FileLoaded result) = Some (s\<lparr>app := handleImageUpload_onloadend result (app s)\<rparr>)"
| "exec s GenerateClick = Some (handleGenerateClick s)"
| "exec s (RegenerateDecade decade) =
     (if decade \<in> set DECADES then Some (handleRegenerateDecade decade s) else None)"
| "exec s (CaptionChange decade newCaption) =
     (if decade \<in> set DECADES
      then Some (s\<lparr>app := handleCaptionChange decade newCaption (app s)\<rparr>) else None)"
| "exec s Reset = Some (s\<lparr>app := handleReset (app s)\<rparr>)"
| "exec s (WorkerSettled b w out) = worker_settled b w out s"
| "exec s (WorkerResumed b w) = worker_resumed b w s"
| "exec s (BatchResolved b) = batch_resolved b s"
| "exec s (RegenerationSettled i out) = regeneration_settled i out s"
| "exec s Rendered = Some (s\<lparr>rendered := app s\<rparr>)"

fun run :: "system \<Rightarrow> event list \<Rightarrow> system option" where
  "run s [] = Some s"
| "run s (e # es) = (case exec s e of None \<Rightarrow> None | Some s' \<Rightarrow> run s' es)"

text \<open>The component as first rendered: the initial values of the state cells.\<close>

definition initialState :: state where
  "initialState =
     \<lparr>uploadedImage = None, generatedImages = [], customCaptions = [],
      isLoading = False, isDownloading = False, appState = idle,
      orderedDecades = DECADES\<rparr>"

definition initial :: system where
  "initial =
     \<lparr>rendered = initialState, app = initialState,
      batches = [], regenerations = [], calls = []\<rparr>"

section \<open>Album assembly\<close>

text \<open>
  What a handler does to the outside world, in order. \<open>createAlbumPage\<close> and
  \<open>dataUrlToFile\<close> (\<open>lib/albumUtils\<close>) and the browser's share sheet are
  collaborators: each either returns a value (\<open>Inr\<close>) or throws, and all the
  handlers look at of a thrown value is its \<open>name\<close> (\<open>Inl\<close>).
\<close>

datatype effect =
    Alert string
  | ConsoleError string
  | CreateAlbumPage "(string \<times> string) list" "(string \<times> string) list"
  | DataUrlToFile string string
  | Download string string
  | Share string string string

record browser =
  createAlbumPage :: "(string \<times> string) list \<Rightarrow> (string \<times> string) list \<Rightarrow> string + string"
  dataUrlToFile :: "string \<Rightarrow> string \<Rightarrow> string + string"
  canShare :: "string \<Rightarrow> bool"
  share :: "string \<Rightarrow> string \<Rightarrow> string \<Rightarrow> string option"

text \<open>
  \<open>Object.entries(generatedImages).filter(...).reduce(...)\<close> of
  \<open>prepareAlbumData\<close>: the entries that are \<open>done\<close> and have a truthy
  \<open>url\<close>, in the order of the object's keys.
\<close>

definition imageDataOf :: "(string \<times> GeneratedImage) list \<Rightarrow> (string \<times> string) list" where
  "imageDataOf images =
     foldl (\<lambda>acc (decade, im). assign decade (case url im of Some u \<Rightarrow> u | None \<Rightarrow> []) acc) []
       (filter (\<lambda>(decade, im). status im = Done \<and> truthy (url im)) images)"

definition prepareAlbumData :: "state \<Rightarrow> effect list \<times> (string \<times> string) list option" where
  "prepareAlbumData s =
     (let imageData = imageDataOf (generatedImages s) in
      if length imageData < length DECADES
      then ([Alert ''Please wait for all images to finish generating.''], None)
      else ([], Some imageData))"

text \<open>
  \<open>handleDownloadAlbum\<close>, from the click to the end of its \<open>finally\<close>:
  the state it leaves and what it did. \<open>s\<close> is the state of the render the
  handler belongs to; \<open>imageData\<close> and \<open>customCaptions\<close> are read
  from it before the \<open>await\<close>.
\<close>

definition handleDownloadAlbum :: "browser \<Rightarrow> state \<Rightarrow> state \<times> effect list" where
  "handleDownloadAlbum env s =
     (case prepareAlbumData s of
        (fx, None) \<Rightarrow> (s, fx)
      | (fx, Some imageData) \<Rightarrow>
          (s\<lparr>isDownloading := False\<rparr>,
           fx @ CreateAlbumPage imageData (customCaptions s) #
             (case createAlbumPage env imageData (customCaptions s) of
                Inr albumDataUrl \<Rightarrow> [Download albumDataUrl ''past-forward-album.jpg'']
              | Inl err \<Rightarrow>
                  [ConsoleError ''Failed to create or download album:'',
                   Alert ''Sorry, there was an error creating your album. Please try again.''])))"

text \<open>
  \<open>decadesInAlbum[0]\<close> and \<open>decadesInAlbum[decadesInAlbum.length - 1]\<close>
  inside a template literal: a missing element prints as \<open>undefined\<close>.
\<close>

definition firstKey :: "string list \<Rightarrow> string" where
  "firstKey ks = (case ks of [] \<Rightarrow> ''undefined'' | k # _ \<Rightarrow> k)"

definition lastKey :: "string list \<Rightarrow> string" where
  "lastKey ks = (if ks = [] then ''undefined'' else last ks)"

definition shareFileName :: "(string \<times> string) list \<Rightarrow> string" where
  "shareFileName imageData =
     (let decadesInAlbum = map fst imageData in
      ''past-forward-album-'' @ firstKey decadesInAlbum @ ''-'' @ lastKey decadesInAlbum @ ''.jpg'')"

definition shareTitle :: "(string \<times> string) list \<Rightarrow> string" where
  "shareTitle imageData =
     (let decadesInAlbum = map fst imageData in
      ''My Past Forward Album: '' @ firstKey decadesInAlbum @ '' - '' @ lastKey decadesInAlbum)"

text \<open>The \<open>catch\<close> block of \<open>handleShareAlbum\<close>.\<close>

definition shareFailed :: "string \<Rightarrow> effect list" where
  "shareFailed name =
     (if name \<noteq> ''AbortError''
      then [ConsoleError ''Error sharing album:'',
            Alert ''Sorry, there was an error preparing your album for sharing.'']
      else [])"

definition handleShareAlbum :: "browser \<Rightarrow> state \<Rightarrow> state \<times> effect list" where
  "handleShareAlbum env s =
     (case prepareAlbumData s of
        (fx, None) \<Rightarrow> (s, fx)
      | (fx, Some imageData) \<Rightarrow>
          (s\<lparr>isDownloading := False\<rparr>,
           fx @ CreateAlbumPage imageData (customCaptions s) #
             (case createAlbumPage env imageData (customCaptions s) of
                Inl err \<Rightarrow> shareFailed err
              | Inr albumDataUrl \<Rightarrow>
                  DataUrlToFile albumDataUrl (shareFileName imageData) #
                    (case dataUrlToFile env albumDataUrl (shareFileName imageData) of
                       Inl err \<Rightarrow> shareFailed err
                     | Inr file \<Rightarrow>
                         if canShare env file then
                           Share file (shareTitle imageData)
                             ''I traveled through time with Past Forward! Check out my album.'' #
                             (case share env file (shareTitle imageData)
                                     ''I traveled through time with Past Forward! Check out my album.'' of
                                None \<Rightarrow> []
                              | Some err \<Rightarrow> shareFailed err)
                         else [ConsoleError ''This album file can't be shared by the browser.'']))))"

section \<open>Notions the properties are stated with\<close>

text \<open>The status of an identifier's entry, if it has one.\<close>

definition statusOf :: "state \<Rightarrow> string \<Rightarrow> ImageStatus option" where
  "statusOf s decade = map_option status (lookup (generatedImages s) decade)"

definition isTerminal :: "state \<Rightarrow> string \<Rightarrow> bool" where
  "isTerminal s decade = (statusOf s decade = Some Done \<or> statusOf s decade = Some Error)"

text \<open>How many entries of the Result Store are \<open>done\<close>.\<close>

definition doneCount :: "state \<Rightarrow> nat" where
  "doneCount s = length (filter (\<lambda>(decade, im). status im = Done) (generatedImages s))"

text \<open>
  The invariant of an entry: the payload is there exactly when the status is
  \<open>done\<close>, the failure message exactly when it is \<open>error\<close>.
\<close>

definition wellFormed :: "GeneratedImage \<Rightarrow> bool" where
  "wellFormed im =
     ((url im \<noteq> None) = (status im = Done) \<and>
      (error im \<noteq> None) = (status im = Error) \<and>
      (url im = None \<or> error im = None))"

text \<open>
  The identifiers whose generator call is in flight: those the workers of a batch
  await, and for the program those of all batches and of the suspended
  regenerations.
\<close>

fun awaited :: "worker list \<Rightarrow> string list" where
  "awaited [] = []"
| "awaited (Awaiting decade # ws) = decade # awaited ws"
| "awaited (Running # ws) = awaited ws"
| "awaited (Finished # ws) = awaited ws"

definition inFlight :: "system \<Rightarrow> string list" where
  "inFlight s = concat (map (\<lambda>B. awaited (workers B)) (batches s)) @ regenerations s"

text \<open>
  Events that belong to operations other than a running batch and write
  \<open>pending\<close> entries or replace the whole store: starting a regeneration or
  another batch, a reset, a freshly read file.
\<close>

fun interferes :: "event \<Rightarrow> bool" where
  "interferes (FileLoaded result) = True"
| "interferes GenerateClick = True"
| "interferes (RegenerateDecade decade) = True"
| "interferes Reset = True"
| "interferes e = False"

text \<open>
  What a list of effects holds: the arguments of the calls of
  \<open>createAlbumPage\<close>, the files handed to the user
  (\<open>link.href\<close>, \<open>link.download\<close>), the file names passed to
  \<open>dataUrlToFile\<close>.
\<close>

fun composeCalls :: "effect list \<Rightarrow> ((string \<times> string) list \<times> (string \<times> string) list) list" where
  "composeCalls [] = []"
| "composeCalls (CreateAlbumPage imageData captions # fx) = (imageData, captions) # composeCalls fx"
| "composeCalls (e # fx) = composeCalls fx"

fun downloads :: "effect list \<Rightarrow> (string \<times> string) list" where
  "downloads [] = []"
| "downloads (Download href name # fx) = (href, name) # downloads fx"
| "downloads (e # fx) = downloads fx"

fun fileNames :: "effect list \<Rightarrow> string list" where
  "fileNames [] = []"
| "fileNames (DataUrlToFile dataUrl name # fx) = name # fileNames fx"
| "fileNames (e # fx) = fileNames fx"


fun clearsStore :: "event \<Rightarrow> bool" where
  "clearsStore Reset = True"
| "clearsStore (FileLoaded result) = True"
| "clearsStore e = False"

text \<open>
  The events that are steps of batch \<open>b\<close> itself, and a measure of the
  batch that each of them decreases: it weighs an identifier in the queue more
  than a worker awaiting a call, and that more than a worker that is running.
\<close>

fun stepsLeft :: "worker list \<Rightarrow> nat" where
  "stepsLeft [] = 0"
| "stepsLeft (Awaiting decade # ws) = 2 + stepsLeft ws"
| "stepsLeft (Running # ws) = 1 + stepsLeft ws"
| "stepsLeft (Finished # ws) = stepsLeft ws"

definition batchMeasure :: "batch \<Rightarrow> nat" where
  "batchMeasure B =
     3 * length (decadesQueue B) + stepsLeft (workers B) + (if resolved B then 0 else 1)"

fun ownEvent :: "nat \<Rightarrow> event \<Rightarrow> bool" where
  "ownEvent b (WorkerSettled b' w out) = (b' = b)"
| "ownEvent b (WorkerResumed b' w) = (b' = b)"
| "ownEvent b (BatchResolved b') = (b' = b)"
| "ownEvent b e = False"

text \<open>
  The generator calls the workers of batch \<open>b\<close> have made, in order, each
  with its worker, the image and the prompt; and the calls that go with the
  claims of a batch, each claim with the batch's image and the prompt for the
  identifier.
\<close>

fun batchCalls :: "nat \<Rightarrow> (caller \<times> string \<times> string) list \<Rightarrow> (nat \<times> string \<times> string) list" where
  "batchCalls b [] = []"
| "batchCalls b ((ByWorker b' w, img, p) # cs) =
     (if b' = b then (w, img, p) # batchCalls b cs else batchCalls b cs)"
| "batchCalls b ((ByRegeneration, img, p) # cs) = batchCalls b cs"

definition claimedCalls :: "batch \<Rightarrow> (nat \<times> string \<times> string) list" where
  "claimedCalls B = map (\<lambda>(v, decade). (v, photo B, prompt decade)) (claimed B)"

text \<open>The state after a sequence of events from the first render.\<close>

definition after :: "event list \<Rightarrow> system" where
  "after es = (case run initial es of Some s \<Rightarrow> s | None \<Rightarrow> initial)"

section \<open>Invariants\<close>

text \<open>
  What holds of every batch at every moment: it has its \<open>concurrencyLimit\<close>
  workers; the identifiers claimed so far, in the order they were claimed, followed
  by the queue are the catalog; a worker has returned only if the queue is empty;
  the batch has resolved only if all workers have returned; the identifiers claimed
  are those whose \<open>processDecade\<close> has returned together with those awaited;
  and a worker completes and awaits only what it has claimed itself.
\<close>

definition batch_ok :: "batch \<Rightarrow> bool" where
  "batch_ok B =
     (length (workers B) = concurrencyLimit
      \<and> map snd (claimed B) @ decadesQueue B = DECADES
      \<and> (Finished \<in> set (workers B) \<longrightarrow> decadesQueue B = [])
      \<and> (resolved B \<longrightarrow> list_all (\<lambda>w. w = Finished) (workers B))
      \<and> mset (map snd (completed B)) + mset (awaited (workers B)) = mset (map snd (claimed B))
      \<and> set (completed B) \<subseteq> set (claimed B)
      \<and> (\<forall>w<length (workers B). \<forall>decade. workers B ! w = Awaiting decade \<longrightarrow> (w, decade) \<in> set (claimed B)))"

text \<open>
  Every identifier of the catalog is still in the queue of the batch, or awaited
  by one of its workers, or its entry is \<open>done\<close> or \<open>error\<close>.
\<close>

definition covers :: "batch \<Rightarrow> state \<Rightarrow> bool" where
  "covers B a =
     (\<forall>decade\<in>set DECADES.
        decade \<in> set (decadesQueue B) \<or> decade \<in> set (awaited (workers B)) \<or> isTerminal a decade)"

definition all_ok :: "system \<Rightarrow> bool" where
  "all_ok s = (\<forall>B\<in>set (batches s). batch_ok B)"

text \<open>
  The calls the workers of a batch have made are one for each of its claims, in
  the order of the claims; no call is logged for a batch that does not exist.
\<close>

definition calls_ok :: "system \<Rightarrow> bool" where
  "calls_ok s =
     (\<forall>b. batchCalls b (calls s) =
        (if b < length (batches s) then claimedCalls (batches s ! b) else []))"

text \<open>
  Batch \<open>b\<close> exists, is well formed and accounts for every identifier of the
  catalog.
\<close>

definition on_course :: "system \<Rightarrow> nat \<Rightarrow> bool" where
  "on_course s b =
     (b < length (batches s) \<and> batch_ok (batches s ! b) \<and> covers (batches s ! b) (app s))"

text \<open>Every entry of the Result Store is well formed.\<close>

definition entries_ok :: "state \<Rightarrow> bool" where
  "entries_ok s = (\<forall>(decade, im)\<in>set (generatedImages s). wellFormed im)"

text \<open>
  The suspended regenerations are for identifiers of the catalog, and the keys of
  the Result Store are the catalog, in its order.
\<close>

definition regs_ok :: "system \<Rightarrow> bool" where
  "regs_ok s = (set (regenerations s) \<subseteq> set DECADES)"

definition in_catalog_order :: "system \<Rightarrow> bool" where
  "in_catalog_order s =
     (all_ok s \<and> regs_ok s \<and> map fst (generatedImages (app s)) = DECADES)"

section \<open>Example runs\<close>

text \<open>
  Concrete runs, used to evaluate the properties below on. A photo is read and
  \<open>Generate\<close> is clicked; then the generator calls settle, here all of them
  with an image, the two workers taking turns.
\<close>

definition batch_started :: system where
  "batch_started = after [FileLoaded (Some ''data:image/png;base64,AAAA''), Rendered, GenerateClick]"

definition photo_loaded :: system where
  "photo_loaded = after [FileLoaded (Some ''data:image/png;base64,AAAA''), Rendered]"

definition batch_steps :: "event list" where
  "batch_steps =
     [WorkerSettled 0 1 (Resolved ''data:image/png;base64,1960''), WorkerResumed 0 1,
      WorkerSettled 0 0 (Resolved ''data:image/png;base64,1950''), WorkerResumed 0 0,
      WorkerSettled 0 0 (Resolved ''data:image/png;base64,1980''),
      WorkerSettled 0 1 (Resolved ''data:image/png;base64,1970''),
      WorkerResumed 0 0, WorkerResumed 0 1,
      WorkerSettled 0 1 (Resolved ''data:image/png;base64,2000''),
      WorkerSettled 0 0 (Resolved ''data:image/png;base64,1990''),
      WorkerResumed 0 0, WorkerResumed 0 1, BatchResolved 0]"

definition batch_trace :: "event list" where
  "batch_trace =
     FileLoaded (Some ''data:image/png;base64,AAAA'') # Rendered # GenerateClick # batch_steps"

definition batch_finished :: system where
  "batch_finished = after (batch_trace @ [Rendered, CaptionChange ''1970s'' ''Groovy Me''])"

text \<open>
  While the batch is still running, the user shakes the card of the first
  identifier, which is already \<open>done\<close>; then the batch runs to its end.
\<close>

definition shaken_prefix :: "event list" where
  "shaken_prefix =
     [FileLoaded (Some ''data:image/png;base64,AAAA''), Rendered, GenerateClick,
      WorkerSettled 0 0 (Resolved ''data:image/png;base64,1950''), WorkerResumed 0 0,
      Rendered, RegenerateDecade ''1950s'']"

definition shaken_trace :: "event list" where
  "shaken_trace =
     shaken_prefix @
     [WorkerSettled 0 1 (Resolved ''data:image/png;base64,1960''), WorkerResumed 0 1,
      WorkerSettled 0 0 (Resolved ''data:image/png;base64,1970''), WorkerResumed 0 0,
      WorkerSettled 0 1 (Resolved ''data:image/png;base64,1980''), WorkerResumed 0 1,
      WorkerSettled 0 0 (Resolved ''data:image/png;base64,1990''), WorkerResumed 0 0,
      WorkerSettled 0 1 (Resolved ''data:image/png;base64,2000''), WorkerResumed 0 1,
      BatchResolved 0]"

text \<open>
  After a finished batch and a re-render, the card of \<open>1950s\<close> has been
  shaken once and the component has not been rendered again. And a batch during
  which, after \<open>1950s\<close> has settled, a second file finishes loading and
  empties the store: when the results are shown \<open>1950s\<close> has no entry.
\<close>

definition shaken_once :: system where
  "shaken_once = after (batch_trace @ [Rendered, RegenerateDecade ''1950s''])"

definition cleared_trace :: "event list" where
  "cleared_trace =
     [FileLoaded (Some ''data:image/png;base64,AAAA''), Rendered, GenerateClick, Rendered,
      WorkerSettled 0 0 (Resolved ''data:image/png;base64,1950''), WorkerResumed 0 0,
      FileLoaded (Some ''data:image/png;base64,BBBB''),
      WorkerSettled 0 1 (Resolved ''data:image/png;base64,1960''), WorkerResumed 0 1,
      WorkerSettled 0 0 (Resolved ''data:image/png;base64,1970''), WorkerResumed 0 0,
      WorkerSettled 0 1 (Resolved ''data:image/png;base64,1980''), WorkerResumed 0 1,
      WorkerSettled 0 0 (Resolved ''data:image/png;base64,1990''), WorkerResumed 0 0,
      WorkerSettled 0 1 (Resolved ''data:image/png;base64,2000''), WorkerResumed 0 1,
      BatchResolved 0, Rendered]"

text \<open>After \<open>Start Over\<close>, another photo has been read.\<close>

definition reloaded :: system where
  "reloaded =
     batch_finished
       \<lparr>rendered := handleImageUpload_onloadend (Some ''data:image/png;base64,BBBB'')
                     (handleReset (app batch_finished)),
        app := handleImageUpload_onloadend (Some ''data:image/png;base64,BBBB'')
                 (handleReset (app batch_finished))\<rparr>"

text \<open>
  Two browsers: one where the compositor and the share sheet work, one where
  \<open>createAlbumPage\<close> throws.
\<close>

definition working_browser :: browser where
  "working_browser =
     \<lparr>createAlbumPage = (\<lambda>imageData captions. Inr ''data:image/jpeg;base64,ALBUM''),
      dataUrlToFile = (\<lambda>dataUrl fileName. Inr fileName),
      canShare = (\<lambda>file. True),
      share = (\<lambda>file title text. None)\<rparr>"

definition failing_browser :: browser where
  "failing_browser =
     \<lparr>createAlbumPage = (\<lambda>imageData captions. Inl ''Error''),
      dataUrlToFile = (\<lambda>dataUrl fileName. Inr fileName),
      canShare = (\<lambda>file. True),
      share = (\<lambda>file title text. None)\<rparr>"

text \<open>
  A batch in which the generator fulfils the call for \<open>1980s\<close> with the empty
  string; a batch during which a second file, picked before the first one was
  read, finishes loading; a batch whose first call is rejected; and a finished
  batch after which a caption is edited and that identifier regenerated.
\<close>

definition empty_url_trace :: "event list" where
  "empty_url_trace =
     [FileLoaded (Some ''data:image/png;base64,AAAA''), Rendered, GenerateClick,
      WorkerSettled 0 0 (Resolved ''data:image/png;base64,1950''), WorkerResumed 0 0,
      WorkerSettled 0 1 (Resolved ''data:image/png;base64,1960''), WorkerResumed 0 1,
      WorkerSettled 0 0 (Resolved ''data:image/png;base64,1970''), WorkerResumed 0 0,
      WorkerSettled 0 1 (Resolved ''''), WorkerResumed 0 1,
      WorkerSettled 0 0 (Resolved ''data:image/png;base64,1990''), WorkerResumed 0 0,
      WorkerSettled 0 1 (Resolved ''data:image/png;base64,2000''), WorkerResumed 0 1,
      BatchResolved 0]"

definition late_photo_trace :: "event list" where
  "late_photo_trace =
     [FileLoaded (Some ''data:image/png;base64,AAAA''), Rendered, GenerateClick,
      FileLoaded (Some ''data:image/png;base64,BBBB'')] @ batch_steps"

definition first_failed :: system where
  "first_failed =
     after [FileLoaded (Some ''data:image/png;base64,AAAA''), Rendered, GenerateClick,
            WorkerSettled 0 0 (Rejected (Some ''quota exceeded''))]"


section \<open>Basic facts\<close>

lemma assign_lookup: "lookup (assign k v obj) k' = (if k' = k then Some v else lookup obj k')"
  by (induction obj) (auto simp: lookup_def)

lemma worker_run_app: "app (worker_run b w s) = app s"
  by (simp add: worker_run_def Let_def)

lemma handleGenerateClick_app:
  "truthy (uploadedImage (rendered s)) \<Longrightarrow>
   app (handleGenerateClick s) =
     (app s)\<lparr>isLoading := True, appState := generating, generatedImages := initialImages\<rparr>"
  by (auto simp: handleGenerateClick_def truthy_def Let_def concurrencyLimit_def worker_run_app
      numeral_2_eq_2 split: option.splits)

lemma initialImages_eq: "initialImages = map (\<lambda>decade. (decade, pendingImage)) DECADES"
  by (simp add: initialImages_def DECADES_def)

lemma regenerate_refused_in_render:
  "statusOf (rendered s) X = Some Pending \<Longrightarrow> handleRegenerateDecade X s = s"
  by (simp add: handleRegenerateDecade_def statusOf_def split: option.splits)

lemma prompt_inj: "inj prompt"
  by (rule injI) (simp add: prompt_def)

section \<open>The batch invariant is kept\<close>

lemma DECADES_truthy: "[] \<notin> set DECADES"
  by (simp add: DECADES_def)

lemma DECADES_distinct: "distinct DECADES"
  by (simp add: DECADES_def)

lemma shiftNext_truthy:
  "[] \<notin> set q \<Longrightarrow> shiftNext q = (case q of [] \<Rightarrow> (None, []) | decade # q' \<Rightarrow> (Some decade, q'))"
  by (cases q) auto

lemma awaited_claim:
  "w < length ws \<Longrightarrow> ws ! w = Running \<Longrightarrow>
   mset (awaited (ws[w := Awaiting decade])) = add_mset decade (mset (awaited ws))"
proof (induction ws arbitrary: w)
  case Nil
  then show ?case by simp
next
  case (Cons x ws)
  show ?case
  proof (cases w)
    case 0
    with Cons.prems show ?thesis by simp
  next
    case (Suc v)
    with Cons show ?thesis by (cases x) simp_all
  qed
qed

lemma awaited_settle:
  "w < length ws \<Longrightarrow> ws ! w = Awaiting decade \<Longrightarrow>
   add_mset decade (mset (awaited (ws[w := Running]))) = mset (awaited ws)"
proof (induction ws arbitrary: w)
  case Nil
  then show ?case by simp
next
  case (Cons x ws)
  show ?case
  proof (cases w)
    case 0
    with Cons.prems show ?thesis by simp
  next
    case (Suc v)
    with Cons show ?thesis by (cases x) simp_all
  qed
qed

lemma awaited_finish:
  "w < length ws \<Longrightarrow> ws ! w = Running \<Longrightarrow> awaited (ws[w := Finished]) = awaited ws"
proof (induction ws arbitrary: w)
  case Nil
  then show ?case by simp
next
  case (Cons x ws)
  show ?case
  proof (cases w)
    case 0
    with Cons.prems show ?thesis by simp
  next
    case (Suc v)
    with Cons show ?thesis by (cases x) simp_all
  qed
qed

lemma awaited_length: "length (awaited ws) \<le> length ws"
  by (induction ws rule: awaited.induct) simp_all

lemma awaited_all_Finished: "list_all (\<lambda>w. w = Finished) ws \<Longrightarrow> awaited ws = []"
  by (induction ws rule: awaited.induct) simp_all

lemma batch_ok_queue_truthy: "batch_ok B \<Longrightarrow> [] \<notin> set (decadesQueue B)"
  using DECADES_truthy by (auto simp: batch_ok_def dest!: arg_cong [where f = set])

lemma batch_ok_head_fresh:
  assumes "batch_ok B" "decadesQueue B = decade # q"
  shows "decade \<notin> snd ` set (claimed B)"
proof -
  from assms have "map snd (claimed B) @ decade # q = DECADES" by (simp add: batch_ok_def)
  then have "distinct (map snd (claimed B) @ decade # q)" using DECADES_distinct by simp
  then show ?thesis by auto
qed

lemma mem_update: "y \<in> set (xs[i := x]) \<Longrightarrow> y = x \<or> y \<in> set xs"
  using set_update_subset_insert [of xs i x] by auto

lemma worker_loop_Nil:
  "decadesQueue B = [] \<Longrightarrow>
   worker_loop w B = B\<lparr>decadesQueue := [], workers := (workers B)[w := Finished]\<rparr>"
  by (simp add: worker_loop_def)

lemma worker_loop_Cons:
  "decadesQueue B = decade # q \<Longrightarrow> decade \<noteq> [] \<Longrightarrow>
   worker_loop w B =
     B\<lparr>decadesQueue := q, workers := (workers B)[w := Awaiting decade],
       claimed := claimed B @ [(w, decade)]\<rparr>"
  by (simp add: worker_loop_def)

lemma batch_okD:
  assumes "batch_ok B"
  shows "length (workers B) = concurrencyLimit"
    and "map snd (claimed B) @ decadesQueue B = DECADES"
    and "Finished \<in> set (workers B) \<Longrightarrow> decadesQueue B = []"
    and "resolved B \<Longrightarrow> list_all (\<lambda>w. w = Finished) (workers B)"
    and "mset (map snd (completed B)) + mset (awaited (workers B)) = mset (map snd (claimed B))"
    and "set (completed B) \<subseteq> set (claimed B)"
    and "w < length (workers B) \<Longrightarrow> workers B ! w = Awaiting decade \<Longrightarrow> (w, decade) \<in> set (claimed B)"
  using assms unfolding batch_ok_def by blast+

lemma worker_loop_ok:
  assumes ok: "batch_ok B" and w: "w < length (workers B)" and r: "workers B ! w = Running"
  shows "batch_ok (worker_loop w B)"
proof (cases "decadesQueue B")
  case Nil
  have nr: "\<not> resolved B"
    using batch_okD(4) [OF ok] w r by (auto simp: list_all_length)
  show ?thesis
    unfolding worker_loop_Nil [OF Nil] batch_ok_def
  proof (intro conjI)
    show "mset (map snd (completed (B\<lparr>decadesQueue := [], workers := (workers B)[w := Finished]\<rparr>)))
          + mset (awaited (workers (B\<lparr>decadesQueue := [], workers := (workers B)[w := Finished]\<rparr>)))
          = mset (map snd (claimed (B\<lparr>decadesQueue := [], workers := (workers B)[w := Finished]\<rparr>)))"
      using batch_okD(5) [OF ok] by (simp add: awaited_finish [OF w r])
    show "\<forall>v<length (workers (B\<lparr>decadesQueue := [], workers := (workers B)[w := Finished]\<rparr>)).
            \<forall>decade. workers (B\<lparr>decadesQueue := [], workers := (workers B)[w := Finished]\<rparr>) ! v = Awaiting decade
              \<longrightarrow> (v, decade) \<in> set (claimed (B\<lparr>decadesQueue := [], workers := (workers B)[w := Finished]\<rparr>))"
      using batch_okD(7) [OF ok] w by (auto simp: nth_list_update)
  qed (use batch_okD(1,2,6) [OF ok] Nil nr in simp_all)
next
  case (Cons decade q)
  have tr: "decade \<noteq> []" using batch_ok_queue_truthy [OF ok] Cons by auto
  have nf: "Finished \<notin> set (workers B)" using batch_okD(3) [OF ok] Cons by auto
  have nr: "\<not> resolved B"
    using batch_okD(4) [OF ok] w r by (auto simp: list_all_length)
  let ?B = "B\<lparr>decadesQueue := q, workers := (workers B)[w := Awaiting decade],
               claimed := claimed B @ [(w, decade)]\<rparr>"
  show ?thesis
    unfolding worker_loop_Cons [OF Cons tr] batch_ok_def
  proof (intro conjI)
    show "length (workers ?B) = concurrencyLimit"
      using batch_okD(1) [OF ok] by simp
    show "map snd (claimed ?B) @ decadesQueue ?B = DECADES"
      using batch_okD(2) [OF ok] Cons by simp
    show "Finished \<in> set (workers ?B) \<longrightarrow> decadesQueue ?B = []"
      using nf by (auto dest: mem_update)
    show "resolved ?B \<longrightarrow> list_all (\<lambda>w. w = Finished) (workers ?B)"
      using nr by simp
    show "mset (map snd (completed ?B)) + mset (awaited (workers ?B)) = mset (map snd (claimed ?B))"
      using batch_okD(5) [OF ok] by (simp add: awaited_claim [OF w r])
    show "set (completed ?B) \<subseteq> set (claimed ?B)"
      using batch_okD(6) [OF ok] by auto
    show "\<forall>v<length (workers ?B). \<forall>d. workers ?B ! v = Awaiting d \<longrightarrow> (v, d) \<in> set (claimed ?B)"
      using batch_okD(7) [OF ok] w by (auto simp: nth_list_update)
  qed
qed

lemma settle_ok:
  assumes ok: "batch_ok B" and w: "w < length (workers B)" and a: "workers B ! w = Awaiting decade"
  shows "batch_ok (B\<lparr>workers := (workers B)[w := Running], completed := completed B @ [(w, decade)]\<rparr>)"
    (is "batch_ok ?B")
proof -
  have nr: "\<not> resolved B"
    using batch_okD(4) [OF ok] w a by (auto simp: list_all_length)
  show ?thesis
    unfolding batch_ok_def
  proof (intro conjI)
    show "length (workers ?B) = concurrencyLimit"
      using batch_okD(1) [OF ok] by simp
    show "map snd (claimed ?B) @ decadesQueue ?B = DECADES"
      using batch_okD(2) [OF ok] by simp
    show "Finished \<in> set (workers ?B) \<longrightarrow> decadesQueue ?B = []"
      using batch_okD(3) [OF ok] by (auto dest: mem_update)
    show "resolved ?B \<longrightarrow> list_all (\<lambda>w. w = Finished) (workers ?B)"
      using nr by simp
    show "mset (map snd (completed ?B)) + mset (awaited (workers ?B)) = mset (map snd (claimed ?B))"
    proof -
      have "mset (map snd (completed ?B)) + mset (awaited (workers ?B))
            = mset (map snd (completed B)) + add_mset decade (mset (awaited ((workers B)[w := Running])))"
        by simp
      also have "\<dots> = mset (map snd (completed B)) + mset (awaited (workers B))"
        by (simp only: awaited_settle [OF w a])
      also have "\<dots> = mset (map snd (claimed B))"
        by (rule batch_okD(5) [OF ok])
      finally show ?thesis by simp
    qed
    show "set (completed ?B) \<subseteq> set (claimed ?B)"
      using batch_okD(6) [OF ok] batch_okD(7) [OF ok w a] by auto
    show "\<forall>v<length (workers ?B). \<forall>d. workers ?B ! v = Awaiting d \<longrightarrow> (v, d) \<in> set (claimed ?B)"
      using batch_okD(7) [OF ok] w by (auto simp: nth_list_update)
  qed
qed

lemma resolve_ok:
  "batch_ok B \<Longrightarrow> list_all (\<lambda>w. w = Finished) (workers B) \<Longrightarrow> batch_ok (B\<lparr>resolved := True\<rparr>)"
  by (simp add: batch_ok_def)

lemma worker_run_batches:
  "batches (worker_run b w s) = (batches s)[b := worker_loop w (batches s ! b)]"
  by (simp add: worker_run_def Let_def)

lemma worker_run_regenerations: "regenerations (worker_run b w s) = regenerations s"
  by (simp add: worker_run_def Let_def)

lemma worker_loop_workers:
  "workers (worker_loop w B) = (workers B)[w := workers (worker_loop w B) ! w] \<or> w \<ge> length (workers B)"
  by (auto simp: worker_loop_def split: prod.splits option.splits)

lemma worker_loop_other:
  "v \<noteq> w \<Longrightarrow> workers (worker_loop w B) ! v = workers B ! v"
  by (auto simp: worker_loop_def split: prod.splits option.splits)

lemma worker_loop_length: "length (workers (worker_loop w B)) = length (workers B)"
  by (auto simp: worker_loop_def split: prod.splits option.splits)

lemma handleGenerateClick_falsy:
  "\<not> truthy (uploadedImage (rendered s)) \<Longrightarrow> handleGenerateClick s = s"
  by (auto simp: handleGenerateClick_def truthy_def split: option.splits)

lemma handleGenerateClick_batches:
  "uploadedImage (rendered s) = Some img \<Longrightarrow> img \<noteq> [] \<Longrightarrow>
   batches (handleGenerateClick s) =
     batches s @ [worker_loop 1 (worker_loop 0 (newBatch img))]"
  by (simp add: handleGenerateClick_def Let_def concurrencyLimit_def numeral_2_eq_2
      worker_run_batches)

lemma handleGenerateClick_regenerations:
  "regenerations (handleGenerateClick s) = regenerations s"
  by (auto simp: handleGenerateClick_def Let_def concurrencyLimit_def numeral_2_eq_2
      worker_run_regenerations split: option.splits)

lemma awaited_replicate: "awaited (replicate n Running) = []"
  by (induction n) simp_all

lemma newBatch_ok: "batch_ok (newBatch img)"
  by (simp add: batch_ok_def newBatch_def awaited_replicate)

lemma started_ok: "batch_ok (worker_loop 1 (worker_loop 0 (newBatch img)))"
proof -
  have l: "length (workers (newBatch img)) = 2"
    by (simp add: newBatch_def concurrencyLimit_def)
  have a: "batch_ok (worker_loop 0 (newBatch img))"
    by (rule worker_loop_ok [OF newBatch_ok]) (simp_all add: newBatch_def concurrencyLimit_def)
  show ?thesis
    by (rule worker_loop_ok [OF a])
      (simp_all add: worker_loop_length worker_loop_other l, simp add: newBatch_def concurrencyLimit_def)
qed

lemma all_ok_update:
  "all_ok s \<Longrightarrow> batch_ok B \<Longrightarrow> batches s' = (batches s)[b := B] \<Longrightarrow> all_ok s'"
  by (auto simp: all_ok_def dest: mem_update)

lemma exec_ok:
  assumes "all_ok s" "exec s e = Some s'"
  shows "all_ok s'"
proof (cases e)
  case (FileLoaded result)
  with assms show ?thesis by (auto simp: all_ok_def)
next
  case GenerateClick
  show ?thesis
  proof (cases "uploadedImage (rendered s)")
    case None
    with assms GenerateClick show ?thesis by (auto simp: handleGenerateClick_def)
  next
    case (Some img)
    show ?thesis
    proof (cases "img = []")
      case True
      with assms GenerateClick Some show ?thesis by (auto simp: handleGenerateClick_def)
    next
      case False
      have "batches s' = batches s @ [worker_loop 1 (worker_loop 0 (newBatch img))]"
        using assms(2) GenerateClick handleGenerateClick_batches [OF Some False] by auto
      with assms(1) started_ok [of img] show ?thesis by (auto simp: all_ok_def)
    qed
  qed
next
  case (RegenerateDecade decade)
  with assms show ?thesis
    by (auto simp: all_ok_def handleRegenerateDecade_def split: if_splits option.splits)
next
  case (CaptionChange decade newCaption)
  with assms show ?thesis by (auto simp: all_ok_def split: if_splits)
next
  case Reset
  with assms show ?thesis by (auto simp: all_ok_def)
next
  case (WorkerSettled b w out)
  with assms(2) obtain decade where
    b: "b < length (batches s)" and w: "w < length (workers (batches s ! b))"
    and a: "workers (batches s ! b) ! w = Awaiting decade"
    and s': "batches s' = (batches s)[b := (batches s ! b)\<lparr>workers := (workers (batches s ! b))[w := Running],
                completed := completed (batches s ! b) @ [(w, decade)]\<rparr>]"
    by (auto simp: worker_settled_def Let_def split: if_splits worker.splits)
  have "batch_ok (batches s ! b)" using assms(1) b by (auto simp: all_ok_def)
  from all_ok_update [OF assms(1) settle_ok [OF this w a] s'] show ?thesis .
next
  case (WorkerResumed b w)
  with assms(2) have
    b: "b < length (batches s)" and w: "w < length (workers (batches s ! b))"
    and r: "workers (batches s ! b) ! w = Running"
    and s': "batches s' = (batches s)[b := worker_loop w (batches s ! b)]"
    by (auto simp: worker_resumed_def worker_run_batches split: if_splits)
  have "batch_ok (batches s ! b)" using assms(1) b by (auto simp: all_ok_def)
  from all_ok_update [OF assms(1) worker_loop_ok [OF this w r] s'] show ?thesis .
next
  case (BatchResolved b)
  with assms(2) have
    b: "b < length (batches s)" and f: "list_all (\<lambda>w. w = Finished) (workers (batches s ! b))"
    and s': "batches s' = (batches s)[b := (batches s ! b)\<lparr>resolved := True\<rparr>]"
    by (auto simp: batch_resolved_def split: if_splits)
  have "batch_ok (batches s ! b)" using assms(1) b by (auto simp: all_ok_def)
  from all_ok_update [OF assms(1) resolve_ok [OF this f] s'] show ?thesis .
next
  case (RegenerationSettled i out)
  with assms show ?thesis by (auto simp: all_ok_def regeneration_settled_def split: if_splits)
next
  case Rendered
  with assms show ?thesis by (auto simp: all_ok_def)
qed

lemma run_ok: "all_ok s \<Longrightarrow> run s es = Some s' \<Longrightarrow> all_ok s'"
proof (induction es arbitrary: s)
  case Nil
  then show ?case by simp
next
  case (Cons e es)
  then show ?case by (auto split: option.splits dest: exec_ok)
qed

lemma initial_ok: "all_ok initial"
  by (simp add: all_ok_def initial_def)

lemma settledImage_terminal:
  "status (settledImage out) = Done \<or> status (settledImage out) = Error"
  by (simp add: settledImage_def doneImage_def errorImage_def split: outcome.splits option.splits)

lemma isTerminal_imageSettled:
  "isTerminal (imageSettled decade out a) d = (d = decade \<or> isTerminal a d)"
  using settledImage_terminal [of out]
  by (auto simp: isTerminal_def statusOf_def imageSettled_def assign_lookup)

lemma covers_store:
  "covers B a \<Longrightarrow> (\<And>d. isTerminal a d \<Longrightarrow> isTerminal a' d) \<Longrightarrow> covers B a'"
  by (auto simp: covers_def)

lemma covers_batch:
  "covers B a \<Longrightarrow> decadesQueue B' = decadesQueue B \<Longrightarrow> workers B' = workers B \<Longrightarrow> covers B' a"
  by (simp add: covers_def)

lemma worker_loop_covers:
  assumes ok: "batch_ok B" and w: "w < length (workers B)" and r: "workers B ! w = Running"
    and c: "covers B a"
  shows "covers (worker_loop w B) a"
proof (cases "decadesQueue B")
  case Nil
  with c show ?thesis
    by (simp add: worker_loop_Nil covers_def awaited_finish [OF w r])
next
  case (Cons decade q)
  have tr: "decade \<noteq> []" using batch_ok_queue_truthy [OF ok] Cons by auto
  have "set (awaited ((workers B)[w := Awaiting decade])) = insert decade (set (awaited (workers B)))"
    using awaited_claim [OF w r, of decade] by (metis set_mset_add_mset_insert set_mset_mset)
  with c Cons show ?thesis
    by (auto simp: worker_loop_Cons [OF Cons tr] covers_def)
qed

lemma settle_covers:
  assumes w: "w < length (workers B)" and aw: "workers B ! w = Awaiting decade"
    and c: "covers B a"
  shows "covers (B\<lparr>workers := (workers B)[w := Running], completed := completed B @ [(w, decade)]\<rparr>)
           (imageSettled decade out a)"
proof -
  have "set (awaited (workers B)) = insert decade (set (awaited ((workers B)[w := Running])))"
    using awaited_settle [OF w aw] by (metis set_mset_add_mset_insert set_mset_mset)
  with c show ?thesis
    by (auto simp: covers_def isTerminal_imageSettled)
qed

lemma on_course_start:
  assumes "truthy (uploadedImage (rendered s))"
  shows "on_course (handleGenerateClick s) (length (batches s))"
proof -
  from assms obtain img where i: "uploadedImage (rendered s) = Some img" "img \<noteq> []"
    by (auto simp: truthy_def split: option.splits)
  have l: "length (workers (newBatch img)) = 2"
    by (simp add: newBatch_def concurrencyLimit_def)
  have c0: "covers (newBatch img) a" for a
    by (simp add: covers_def newBatch_def)
  have c1: "covers (worker_loop 0 (newBatch img)) a" for a
    by (rule worker_loop_covers [OF newBatch_ok _ _ c0])
      (simp_all add: newBatch_def concurrencyLimit_def)
  have ok1: "batch_ok (worker_loop 0 (newBatch img))"
    by (rule worker_loop_ok [OF newBatch_ok]) (simp_all add: newBatch_def concurrencyLimit_def)
  have c2: "covers (worker_loop 1 (worker_loop 0 (newBatch img))) a" for a
    by (rule worker_loop_covers [OF ok1 _ _ c1])
      (simp_all add: worker_loop_length worker_loop_other l, simp add: newBatch_def concurrencyLimit_def)
  show ?thesis
    using c2 started_ok [of img]
    by (simp add: on_course_def handleGenerateClick_batches [OF i])
qed

lemma on_course_step:
  assumes oc: "on_course s b" and q: "\<not> interferes e" and ex: "exec s e = Some s'"
  shows "on_course s' b"
proof -
  from oc have b: "b < length (batches s)" and ok: "batch_ok (batches s ! b)"
    and c: "covers (batches s ! b) (app s)"
    by (simp_all add: on_course_def)
  show ?thesis
  proof (cases e)
    case (CaptionChange decade newCaption)
    with ex have "batches s' = batches s"
      and "\<And>d. isTerminal (app s') d = isTerminal (app s) d"
      by (auto simp: handleCaptionChange_def isTerminal_def statusOf_def split: if_splits)
    with b ok c show ?thesis by (auto simp: on_course_def covers_def)
  next
    case (WorkerSettled b' w out)
    with ex obtain decade where
      b': "b' < length (batches s)" and w: "w < length (workers (batches s ! b'))"
      and a: "workers (batches s ! b') ! w = Awaiting decade"
      and bs: "batches s' = (batches s)[b' := (batches s ! b')\<lparr>workers := (workers (batches s ! b'))[w := Running],
                  completed := completed (batches s ! b') @ [(w, decade)]\<rparr>]"
      and ap: "app s' = imageSettled decade out (app s)"
      by (auto simp: worker_settled_def Let_def split: if_splits worker.splits)
    show ?thesis
    proof (cases "b' = b")
      case True
      with b ok c w a bs ap show ?thesis
        by (simp add: on_course_def settle_ok settle_covers)
    next
      case False
      with b ok c bs ap show ?thesis
        by (auto simp: on_course_def isTerminal_imageSettled elim: covers_store)
    qed
  next
    case (WorkerResumed b' w)
    with ex have
      b': "b' < length (batches s)" and w: "w < length (workers (batches s ! b'))"
      and r: "workers (batches s ! b') ! w = Running"
      and bs: "batches s' = (batches s)[b' := worker_loop w (batches s ! b')]"
      and ap: "app s' = app s"
      by (auto simp: worker_resumed_def worker_run_batches worker_run_app split: if_splits)
    show ?thesis
    proof (cases "b' = b")
      case True
      with b ok c w r bs ap show ?thesis
        by (simp add: on_course_def worker_loop_ok worker_loop_covers)
    next
      case False
      with b ok c bs ap show ?thesis by (simp add: on_course_def)
    qed
  next
    case (BatchResolved b')
    with ex have
      b': "b' < length (batches s)" and f: "list_all (\<lambda>w. w = Finished) (workers (batches s ! b'))"
      and bs: "batches s' = (batches s)[b' := (batches s ! b')\<lparr>resolved := True\<rparr>]"
      and ap: "\<And>d. isTerminal (app s') d = isTerminal (app s) d"
      by (auto simp: batch_resolved_def isTerminal_def statusOf_def split: if_splits)
    show ?thesis
    proof (cases "b' = b")
      case True
      with b ok c f bs ap show ?thesis
        by (auto simp: on_course_def resolve_ok covers_def)
    next
      case False
      with b ok c bs ap show ?thesis by (auto simp: on_course_def covers_def)
    qed
  next
    case (RegenerationSettled i out)
    with ex have "batches s' = batches s"
      and "app s' = imageSettled (regenerations s ! i) out (app s)"
      by (auto simp: regeneration_settled_def split: if_splits)
    with b ok c show ?thesis
      by (auto simp: on_course_def isTerminal_imageSettled elim: covers_store)
  next
    case Rendered
    with ex have "batches s' = batches s" and "app s' = app s" by auto
    with b ok c show ?thesis by (simp add: on_course_def)
  qed (use q in simp_all)
qed

lemma on_course_run:
  "on_course s b \<Longrightarrow> \<forall>e\<in>set es. \<not> interferes e \<Longrightarrow> run s es = Some s' \<Longrightarrow> on_course s' b"
proof (induction es arbitrary: s)
  case Nil
  then show ?case by simp
next
  case (Cons e es)
  then show ?case by (auto split: option.splits dest: on_course_step)
qed

lemma on_course_resolved:
  assumes "on_course s b" "resolved (batches s ! b)" "decade \<in> set DECADES"
  shows "isTerminal (app s) decade"
proof -
  let ?B = "batches s ! b"
  from assms have ok: "batch_ok ?B" and c: "covers ?B (app s)"
    by (simp_all add: on_course_def)
  have f: "list_all (\<lambda>w. w = Finished) (workers ?B)"
    using batch_okD(4) [OF ok] assms(2) by simp
  have "workers ?B \<noteq> []"
    using batch_okD(1) [OF ok] by (auto simp: concurrencyLimit_def)
  with f have "Finished \<in> set (workers ?B)"
    by (cases "workers ?B") auto
  then have "decadesQueue ?B = []" by (rule batch_okD(3) [OF ok])
  with c assms(3) awaited_all_Finished [OF f] show ?thesis
    by (auto simp: covers_def)
qed

lemma awaited_all_bound:
  "\<forall>B\<in>set bs. batch_ok B \<Longrightarrow>
   length (concat (map (\<lambda>B. awaited (workers B)) bs)) \<le> concurrencyLimit * length bs"
proof (induction bs)
  case Nil
  then show ?case by simp
next
  case (Cons B bs)
  have "length (awaited (workers B)) \<le> concurrencyLimit"
    using awaited_length [of "workers B"] batch_okD(1) [of B] Cons.prems by simp
  with Cons show ?case by simp
qed

lemma inFlight_bound:
  "all_ok s \<Longrightarrow> length (concat (map (\<lambda>B. awaited (workers B)) (batches s)))
      \<le> concurrencyLimit * length (batches s)"
  by (rule awaited_all_bound) (simp add: all_ok_def)

lemma sub_mset_eq:
  assumes "set xs \<subseteq> set ys" "mset (map snd xs) = mset (map snd ys)" "distinct (map snd ys)"
  shows "mset xs = mset ys"
proof -
  have dx: "distinct (map snd xs)"
    using assms(2,3) by (metis mset_eq_imp_distinct_iff)
  have "distinct xs" "distinct ys"
    using dx assms(3) by (simp_all add: distinct_map)
  moreover have "length xs = length ys"
    using assms(2) by (metis length_map mset_eq_length)
  ultimately have "card (set xs) = card (set ys)"
    by (simp add: distinct_card)
  with assms(1) have "set xs = set ys"
    by (simp add: card_subset_eq)
  with \<open>distinct xs\<close> \<open>distinct ys\<close> show ?thesis
    by (simp add: set_eq_iff_mset_eq_distinct)
qed

section \<open>The calls a batch makes\<close>

lemma batchCalls_append: "batchCalls b (cs @ ds) = batchCalls b cs @ batchCalls b ds"
  by (induction b cs rule: batchCalls.induct) simp_all

lemma claimedCalls_worker_loop:
  "claimedCalls (worker_loop w B) =
     claimedCalls B @
       (case fst (shiftNext (decadesQueue B)) of None \<Rightarrow> [] | Some decade \<Rightarrow> [(w, photo B, prompt decade)])"
  by (auto simp: claimedCalls_def worker_loop_def split: prod.splits option.splits)

lemma claimedCalls_cong:
  "photo B' = photo B \<Longrightarrow> claimed B' = claimed B \<Longrightarrow> claimedCalls B' = claimedCalls B"
  by (simp add: claimedCalls_def)

lemma calls_okD:
  "calls_ok s \<Longrightarrow> batchCalls c (calls s) =
     (if c < length (batches s) then claimedCalls (batches s ! c) else [])"
  by (simp add: calls_ok_def)

lemma worker_run_calls_ok:
  assumes "calls_ok s" "b < length (batches s)"
  shows "calls_ok (worker_run b w s)"
  unfolding calls_ok_def
proof
  fix c
  show "batchCalls c (calls (worker_run b w s)) =
        (if c < length (batches (worker_run b w s))
         then claimedCalls (batches (worker_run b w s) ! c) else [])"
  proof (cases "c = b")
    case True
    with calls_okD [OF assms(1), of b] assms(2) show ?thesis
      by (simp add: worker_run_def Let_def batchCalls_append claimedCalls_worker_loop
          split: option.splits)
  next
    case False
    with calls_okD [OF assms(1), of c] show ?thesis
      by (simp add: worker_run_def Let_def batchCalls_append split: option.splits)
  qed
qed

lemma calls_ok_update:
  assumes "calls_ok s" "calls s' = calls s" "batches s' = (batches s)[b := B]"
    and "b < length (batches s) \<Longrightarrow> claimedCalls B = claimedCalls (batches s ! b)"
  shows "calls_ok s'"
  unfolding calls_ok_def
proof
  fix c
  show "batchCalls c (calls s') =
        (if c < length (batches s') then claimedCalls (batches s' ! c) else [])"
    using calls_okD [OF assms(1), of c] assms(2,3,4)
    by (cases "c = b") (simp_all add: nth_list_update)
qed

lemma calls_ok_same:
  "calls_ok s \<Longrightarrow> calls s' = calls s \<Longrightarrow> batches s' = batches s \<Longrightarrow> calls_ok s'"
  by (simp add: calls_ok_def)

lemma exec_calls_ok:
  assumes "calls_ok s" "exec s e = Some s'"
  shows "calls_ok s'"
proof (cases e)
  case (FileLoaded result)
  with assms(2) have "calls s' = calls s" "batches s' = batches s" by auto
  with assms(1) show ?thesis by (rule calls_ok_same)
next
  case GenerateClick
  show ?thesis
  proof (cases "truthy (uploadedImage (rendered s))")
    case False
    with assms GenerateClick show ?thesis by (simp add: handleGenerateClick_falsy)
  next
    case True
    then obtain img where i: "uploadedImage (rendered s) = Some img" "img \<noteq> []"
      by (auto simp: truthy_def split: option.splits)
    let ?s1 = "s\<lparr>app := (app s)\<lparr>isLoading := True, appState := generating,
                                      generatedImages := initialImages\<rparr>,
                     batches := batches s @ [newBatch img]\<rparr>"
    have 1: "calls_ok ?s1"
      unfolding calls_ok_def
    proof
      fix c
      show "batchCalls c (calls ?s1) =
            (if c < length (batches ?s1) then claimedCalls (batches ?s1 ! c) else [])"
        using calls_okD [OF assms(1), of c]
        by (simp add: nth_append claimedCalls_def newBatch_def)
    qed
    have l: "length (batches s) < length (batches ?s1)" by simp
    have 2: "calls_ok (worker_run (length (batches s)) 0 ?s1)"
      by (rule worker_run_calls_ok [OF 1 l])
    have l2: "length (batches s) < length (batches (worker_run (length (batches s)) 0 ?s1))"
      by (simp add: worker_run_batches)
    have "calls_ok (worker_run (length (batches s)) 1 (worker_run (length (batches s)) 0 ?s1))"
      by (rule worker_run_calls_ok [OF 2 l2])
    moreover have "s' = worker_run (length (batches s)) 1 (worker_run (length (batches s)) 0 ?s1)"
      using assms(2) GenerateClick i
      by (simp add: handleGenerateClick_def Let_def concurrencyLimit_def numeral_2_eq_2)
    ultimately show ?thesis by simp
  qed
next
  case (RegenerateDecade decade)
  with assms(2) have "s' = s \<or> (\<exists>img. calls s' = calls s @ [(ByRegeneration, img, prompt decade)]
      \<and> batches s' = batches s)"
    by (auto simp: handleRegenerateDecade_def split: if_splits option.splits)
  then show ?thesis
  proof (elim disjE exE conjE)
    assume "s' = s" with assms(1) show ?thesis by simp
  next
    fix img
    assume "calls s' = calls s @ [(ByRegeneration, img, prompt decade)]" "batches s' = batches s"
    with assms(1) show ?thesis by (simp add: calls_ok_def batchCalls_append)
  qed
next
  case (CaptionChange decade newCaption)
  with assms(2) have "calls s' = calls s" "batches s' = batches s" by (auto split: if_splits)
  with assms(1) show ?thesis by (rule calls_ok_same)
next
  case Reset
  with assms(2) have "calls s' = calls s" "batches s' = batches s" by auto
  with assms(1) show ?thesis by (rule calls_ok_same)
next
  case (WorkerSettled b w out)
  with assms(2) obtain decade where
    c: "calls s' = calls s"
    and bs: "batches s' = (batches s)[b := (batches s ! b)\<lparr>workers := (workers (batches s ! b))[w := Running],
                completed := completed (batches s ! b) @ [(w, decade)]\<rparr>]"
    by (auto simp: worker_settled_def Let_def split: if_splits worker.splits)
  show ?thesis
    by (rule calls_ok_update [OF assms(1) c bs]) (simp add: claimedCalls_def)
next
  case (WorkerResumed b w)
  with assms(2) have "b < length (batches s)" "s' = worker_run b w s"
    by (auto simp: worker_resumed_def split: if_splits)
  with assms(1) show ?thesis by (simp add: worker_run_calls_ok)
next
  case (BatchResolved b)
  with assms(2) have
    c: "calls s' = calls s"
    and bs: "batches s' = (batches s)[b := (batches s ! b)\<lparr>resolved := True\<rparr>]"
    by (auto simp: batch_resolved_def split: if_splits)
  show ?thesis
    by (rule calls_ok_update [OF assms(1) c bs]) (simp add: claimedCalls_def)
next
  case (RegenerationSettled i out)
  with assms(2) have "calls s' = calls s" "batches s' = batches s"
    by (auto simp: regeneration_settled_def split: if_splits)
  with assms(1) show ?thesis by (rule calls_ok_same)
next
  case Rendered
  with assms(2) have "calls s' = calls s" "batches s' = batches s" by auto
  with assms(1) show ?thesis by (rule calls_ok_same)
qed

lemma run_calls_ok: "calls_ok s \<Longrightarrow> run s es = Some s' \<Longrightarrow> calls_ok s'"
proof (induction es arbitrary: s)
  case Nil
  then show ?case by simp
next
  case (Cons e es)
  then show ?case by (auto split: option.splits dest: exec_calls_ok)
qed

lemma initial_calls_ok: "calls_ok initial"
  by (simp add: calls_ok_def initial_def)

section \<open>Entries, captions and the album\<close>

lemma assign_set: "set (assign k v obj) \<subseteq> insert (k, v) (set obj)"
  by (induction obj) auto

lemma wellFormed_literals:
  "wellFormed pendingImage" "wellFormed (doneImage u)" "wellFormed (errorImage m)"
  by (simp_all add: wellFormed_def pendingImage_def doneImage_def errorImage_def)

lemma wellFormed_settled: "wellFormed (settledImage out)"
  by (simp add: settledImage_def wellFormed_literals split: outcome.splits option.splits)

lemma entries_ok_assign:
  "entries_ok s \<Longrightarrow> wellFormed im \<Longrightarrow>
   entries_ok (s\<lparr>generatedImages := assign decade im (generatedImages s)\<rparr>)"
  using assign_set [of decade im "generatedImages s"] by (auto simp: entries_ok_def)

lemma entries_ok_initialImages: "\<forall>(decade, im)\<in>set initialImages. wellFormed im"
  by (auto simp: initialImages_eq wellFormed_literals)

lemma lookup_initialImages:
  "lookup initialImages k = (if k \<in> set DECADES then Some pendingImage else None)"
  by (simp add: initialImages_def DECADES_def lookup_def)

lemma exec_app:
  assumes "exec s e = Some s'"
  shows "app s' = app s
     \<or> (\<exists>result. app s' = handleImageUpload_onloadend result (app s))
     \<or> app s' = (app s)\<lparr>isLoading := True, appState := generating, generatedImages := initialImages\<rparr>
     \<or> (\<exists>decade. app s' = (app s)\<lparr>generatedImages := assign decade pendingImage (generatedImages (app s))\<rparr>)
     \<or> (\<exists>decade newCaption. app s' = handleCaptionChange decade newCaption (app s))
     \<or> app s' = handleReset (app s)
     \<or> (\<exists>decade out. app s' = imageSettled decade out (app s))
     \<or> app s' = (app s)\<lparr>isLoading := False, appState := results_shown\<rparr>"
proof (cases e)
  case GenerateClick
  show ?thesis
  proof (cases "truthy (uploadedImage (rendered s))")
    case True
    with assms GenerateClick have
      "app s' = (app s)\<lparr>isLoading := True, appState := generating, generatedImages := initialImages\<rparr>"
      by (auto simp: handleGenerateClick_app)
    then show ?thesis by blast
  next
    case False
    with assms GenerateClick have "app s' = app s" by (auto simp: handleGenerateClick_falsy)
    then show ?thesis by blast
  qed
next
  case (RegenerateDecade decade)
  with assms have "app s' = app s
      \<or> app s' = (app s)\<lparr>generatedImages := assign decade pendingImage (generatedImages (app s))\<rparr>"
    by (auto simp: handleRegenerateDecade_def split: if_splits option.splits)
  then show ?thesis by blast
next
  case (WorkerSettled b w out)
  with assms obtain decade where "app s' = imageSettled decade out (app s)"
    by (auto simp: worker_settled_def Let_def split: if_splits worker.splits)
  then show ?thesis by blast
next
  case (WorkerResumed b w)
  with assms have "app s' = app s"
    by (auto simp: worker_resumed_def worker_run_app split: if_splits)
  then show ?thesis by blast
next
  case (BatchResolved b)
  with assms have "app s' = (app s)\<lparr>isLoading := False, appState := results_shown\<rparr>"
    by (auto simp: batch_resolved_def split: if_splits)
  then show ?thesis by blast
next
  case (RegenerationSettled i out)
  with assms have "app s' = imageSettled (regenerations s ! i) out (app s)"
    by (auto simp: regeneration_settled_def split: if_splits)
  then show ?thesis by blast
next
  case (FileLoaded result)
  with assms have "app s' = handleImageUpload_onloadend result (app s)" by auto
  then show ?thesis by blast
next
  case (CaptionChange decade newCaption)
  with assms have "app s' = handleCaptionChange decade newCaption (app s)"
    by (auto split: if_splits)
  then show ?thesis by blast
next
  case Reset
  with assms have "app s' = handleReset (app s)" by auto
  then show ?thesis by blast
next
  case Rendered
  with assms have "app s' = app s" by auto
  then show ?thesis by blast
qed

lemma exec_entries_ok:
  assumes "entries_ok (app s)" "exec s e = Some s'"
  shows "entries_ok (app s')"
  using exec_app [OF assms(2)] assms(1) entries_ok_initialImages
  by (elim disjE exE)
    (auto simp: handleImageUpload_onloadend_def handleCaptionChange_def handleReset_def
      imageSettled_def entries_ok_assign wellFormed_literals wellFormed_settled,
     auto simp: entries_ok_def)

lemma run_entries_ok: "entries_ok (app s) \<Longrightarrow> run s es = Some s' \<Longrightarrow> entries_ok (app s')"
proof (induction es arbitrary: s)
  case Nil
  then show ?case by simp
next
  case (Cons e es)
  then show ?case by (auto split: option.splits dest: exec_entries_ok)
qed

lemma settledImage_literal:
  "(\<exists>u. settledImage out = doneImage u) \<or> (\<exists>m. settledImage out = errorImage m)"
  by (auto simp: settledImage_def split: outcome.splits option.splits)

lemma exec_whole_entry:
  assumes "exec s e = Some s'"
  shows "lookup (generatedImages (app s')) k = lookup (generatedImages (app s)) k
       \<or> lookup (generatedImages (app s')) k = None
       \<or> lookup (generatedImages (app s')) k = Some pendingImage
       \<or> (\<exists>u. lookup (generatedImages (app s')) k = Some (doneImage u))
       \<or> (\<exists>m. lookup (generatedImages (app s')) k = Some (errorImage m))"
  using exec_app [OF assms]
proof (elim disjE exE)
  fix decade out
  assume "app s' = imageSettled decade out (app s)"
  with settledImage_literal [of out] show ?thesis
    by (auto simp: imageSettled_def assign_lookup)
qed (auto simp: handleImageUpload_onloadend_def handleCaptionChange_def handleReset_def
      assign_lookup lookup_initialImages, auto simp: lookup_def)

lemma assign_length: "length (assign k v obj) \<le> Suc (length obj)"
  by (induction obj) auto

lemma assign_fresh: "k \<notin> fst ` set obj \<Longrightarrow> assign k v obj = obj @ [(k, v)]"
  by (induction obj) auto

lemma assign_keys: "k \<in> fst ` set obj \<Longrightarrow> map fst (assign k v obj) = map fst obj"
  by (induction obj) auto

lemma foldl_assign_length:
  "length (foldl (\<lambda>acc (k, x). assign k (f x) acc) acc xs) \<le> length acc + length xs"
proof (induction xs arbitrary: acc)
  case Nil
  then show ?case by simp
next
  case (Cons p xs)
  obtain k x where p: "p = (k, x)" by (cases p)
  have "length (foldl (\<lambda>acc (k, x). assign k (f x) acc) (assign k (f x) acc) xs)
        \<le> length (assign k (f x) acc) + length xs"
    by (rule Cons.IH)
  with assign_length [of k "f x" acc] show ?case by (simp add: p)
qed

lemma foldl_assign_distinct:
  "distinct (map fst acc @ map fst xs) \<Longrightarrow>
   foldl (\<lambda>acc (k, x). assign k (f x) acc) acc xs = acc @ map (\<lambda>(k, x). (k, f x)) xs"
proof (induction xs arbitrary: acc)
  case Nil
  then show ?case by simp
next
  case (Cons p xs)
  obtain k x where p: "p = (k, x)" by (cases p)
  from Cons.prems have fresh: "k \<notin> fst ` set acc" by (auto simp: p)
  have "distinct (map fst (acc @ [(k, f x)]) @ map fst xs)"
    using Cons.prems by (auto simp: p)
  from Cons.IH [OF this] show ?case
    by (simp add: p assign_fresh [OF fresh])
qed

lemma done_truthy_length:
  "length (filter (\<lambda>(decade, im). status im = Done \<and> truthy (url im)) images)
   \<le> length (filter (\<lambda>(decade, im). status im = Done) images)"
  by (induction images) auto

lemma imageDataOf_length:
  "length (imageDataOf images) \<le> length (filter (\<lambda>(decade, im). status im = Done) images)"
proof -
  let ?xs = "filter (\<lambda>(decade, im). status im = Done \<and> truthy (url im)) images"
  have "length (foldl (\<lambda>acc (k, x). assign k (case url x of Some u \<Rightarrow> u | None \<Rightarrow> []) acc) [] ?xs)
        \<le> length ([] :: (string \<times> string) list) + length ?xs"
    by (rule foldl_assign_length)
  then have "length (imageDataOf images) \<le> length ?xs"
    by (simp add: imageDataOf_def)
  also have "\<dots> \<le> length (filter (\<lambda>(decade, im). status im = Done) images)"
    by (rule done_truthy_length)
  finally show ?thesis .
qed

lemma imageDataOf_distinct:
  assumes "distinct (map fst images)"
  shows "imageDataOf images =
         map (\<lambda>(decade, im). (decade, case url im of Some u \<Rightarrow> u | None \<Rightarrow> []))
           (filter (\<lambda>(decade, im). status im = Done \<and> truthy (url im)) images)"
proof -
  let ?xs = "filter (\<lambda>(decade, im). status im = Done \<and> truthy (url im)) images"
  have "distinct (map fst ?xs)"
    using assms by (rule distinct_map_filter)
  then have d: "distinct (map fst ([] :: (string \<times> string) list) @ map fst ?xs)"
    by simp
  show ?thesis
    unfolding imageDataOf_def
    by (simp only: foldl_assign_distinct [OF d] append_Nil)
qed

lemma composeCalls_append: "composeCalls (fx @ gx) = composeCalls fx @ composeCalls gx"
  by (induction fx rule: composeCalls.induct) simp_all

lemma refused:
  "doneCount s < length DECADES \<Longrightarrow>
   prepareAlbumData s = ([Alert ''Please wait for all images to finish generating.''], None)"
  using imageDataOf_length [of "generatedImages s"]
  by (simp add: prepareAlbumData_def doneCount_def Let_def)

lemma accepted_download:
  assumes "prepareAlbumData s = (fx, Some imageData)"
  shows "fx = []"
    and "composeCalls (snd (handleDownloadAlbum env s)) = [(imageData, customCaptions s)]"
    and "composeCalls (snd (handleShareAlbum env s)) = [(imageData, customCaptions s)]"
    and "createAlbumPage env imageData (customCaptions s) = Inr blob \<Longrightarrow>
         snd (handleDownloadAlbum env s) =
           [CreateAlbumPage imageData (customCaptions s), Download blob ''past-forward-album.jpg'']"
    and "createAlbumPage env imageData (customCaptions s) = Inl err \<Longrightarrow>
         downloads (snd (handleDownloadAlbum env s)) = []"
    and "createAlbumPage env imageData (customCaptions s) = Inr blob \<Longrightarrow>
         fileNames (snd (handleShareAlbum env s)) = [shareFileName imageData]"
proof -
  show fx: "fx = []"
    using assms by (auto simp: prepareAlbumData_def Let_def split: if_splits)
  show "composeCalls (snd (handleDownloadAlbum env s)) = [(imageData, customCaptions s)]"
    using assms fx by (simp add: handleDownloadAlbum_def split: sum.splits)
  show "composeCalls (snd (handleShareAlbum env s)) = [(imageData, customCaptions s)]"
    using assms fx
    by (simp add: handleShareAlbum_def shareFailed_def split: sum.splits option.splits)
  show "snd (handleDownloadAlbum env s) =
           [CreateAlbumPage imageData (customCaptions s), Download blob ''past-forward-album.jpg'']"
    if "createAlbumPage env imageData (customCaptions s) = Inr blob"
    using assms fx that by (simp add: handleDownloadAlbum_def)
  show "downloads (snd (handleDownloadAlbum env s)) = []"
    if "createAlbumPage env imageData (customCaptions s) = Inl err"
    using assms fx that by (simp add: handleDownloadAlbum_def)
  show "fileNames (snd (handleShareAlbum env s)) = [shareFileName imageData]"
    if "createAlbumPage env imageData (customCaptions s) = Inr blob"
    using assms fx that
    by (simp add: handleShareAlbum_def shareFailed_def split: sum.splits option.splits)
qed



lemma accepted_download_whole:
  assumes "prepareAlbumData s = ([], Some imageData)"
  shows "createAlbumPage env imageData (customCaptions s) = Inr blob \<Longrightarrow>
         handleDownloadAlbum env s =
           (s\<lparr>isDownloading := False\<rparr>,
            [CreateAlbumPage imageData (customCaptions s), Download blob ''past-forward-album.jpg''])"
    and "createAlbumPage env imageData (customCaptions s) = Inl err \<Longrightarrow>
         handleDownloadAlbum env s =
           (s\<lparr>isDownloading := False\<rparr>,
            [CreateAlbumPage imageData (customCaptions s),
             ConsoleError ''Failed to create or download album:'',
             Alert ''Sorry, there was an error creating your album. Please try again.''])"
  using assms by (simp_all add: handleDownloadAlbum_def)

section \<open>The order of the keys of the Result Store\<close>

lemma exec_regs_ok:
  assumes "regs_ok s" "exec s e = Some s'"
  shows "regs_ok s'"
proof (cases e)
  case GenerateClick
  with assms show ?thesis by (auto simp: regs_ok_def handleGenerateClick_regenerations)
next
  case (RegenerateDecade decade)
  with assms show ?thesis
    by (auto simp: regs_ok_def handleRegenerateDecade_def split: if_splits option.splits)
next
  case (WorkerSettled b w out)
  with assms show ?thesis
    by (auto simp: regs_ok_def worker_settled_def Let_def split: if_splits worker.splits)
next
  case (WorkerResumed b w)
  with assms show ?thesis
    by (auto simp: regs_ok_def worker_resumed_def worker_run_regenerations split: if_splits)
next
  case (BatchResolved b)
  with assms show ?thesis
    by (auto simp: regs_ok_def batch_resolved_def split: if_splits)
next
  case (RegenerationSettled i out)
  with assms have "regenerations s' = take i (regenerations s) @ drop (Suc i) (regenerations s)"
    by (auto simp: regeneration_settled_def split: if_splits)
  then have "set (regenerations s') \<subseteq> set (regenerations s)"
    using set_take_subset [of i "regenerations s"] set_drop_subset [of "Suc i" "regenerations s"]
    by simp
  with assms(1) show ?thesis by (simp add: regs_ok_def)
qed (use assms in \<open>auto simp: regs_ok_def split: if_splits\<close>)

lemma run_regs_ok: "regs_ok s \<Longrightarrow> run s es = Some s' \<Longrightarrow> regs_ok s'"
proof (induction es arbitrary: s)
  case Nil
  then show ?case by simp
next
  case (Cons e es)
  then show ?case by (auto split: option.splits dest: exec_regs_ok)
qed

lemma awaited_in_catalog:
  assumes "batch_ok B" "w < length (workers B)" "workers B ! w = Awaiting decade"
  shows "decade \<in> set DECADES"
proof -
  have "(w, decade) \<in> set (claimed B)" by (rule batch_okD(7) [OF assms])
  then have "decade \<in> set (map snd (claimed B))" by force
  then have "decade \<in> set (map snd (claimed B) @ decadesQueue B)" by simp
  then show ?thesis by (simp only: batch_okD(2) [OF assms(1)])
qed

lemma settled_keys:
  "map fst (generatedImages a) = DECADES \<Longrightarrow> decade \<in> set DECADES \<Longrightarrow>
   map fst (generatedImages (imageSettled decade out a)) = DECADES"
proof -
  assume k: "map fst (generatedImages a) = DECADES" and d: "decade \<in> set DECADES"
  from d have "decade \<in> fst ` set (generatedImages a)"
    by (simp only: k [symmetric] set_map)
  then show ?thesis
    by (simp add: imageSettled_def assign_keys k)
qed

lemma catalog_order_step:
  assumes c: "in_catalog_order s" and q: "\<not> clearsStore e" and ex: "exec s e = Some s'"
  shows "in_catalog_order s'"
proof -
  from c have ok: "all_ok s" and r: "regs_ok s"
    and k: "map fst (generatedImages (app s)) = DECADES"
    by (simp_all add: in_catalog_order_def)
  have ok': "all_ok s'" by (rule exec_ok [OF ok ex])
  have r': "regs_ok s'" by (rule exec_regs_ok [OF r ex])
  have "map fst (generatedImages (app s')) = DECADES"
  proof (cases e)
    case GenerateClick
    show ?thesis
    proof (cases "truthy (uploadedImage (rendered s))")
      case True
      with ex GenerateClick show ?thesis
        by (auto simp: handleGenerateClick_app initialImages_eq comp_def)
    next
      case False
      with ex GenerateClick k show ?thesis by (auto simp: handleGenerateClick_falsy)
    qed
  next
    case (RegenerateDecade decade)
    with ex have d: "decade \<in> set DECADES" by (auto split: if_splits)
    then have m: "decade \<in> fst ` set (generatedImages (app s))"
      by (simp only: k [symmetric] set_map)
    from ex RegenerateDecade have "app s' = app s
        \<or> app s' = (app s)\<lparr>generatedImages := assign decade pendingImage (generatedImages (app s))\<rparr>"
      by (auto simp: handleRegenerateDecade_def split: if_splits option.splits)
    then show ?thesis
      using k assign_keys [OF m, of pendingImage] by auto
  next
    case (CaptionChange decade newCaption)
    with ex k show ?thesis by (auto simp: handleCaptionChange_def split: if_splits)
  next
    case (WorkerSettled b w out)
    with ex obtain decade where
      b: "b < length (batches s)" and w: "w < length (workers (batches s ! b))"
      and a: "workers (batches s ! b) ! w = Awaiting decade"
      and ap: "app s' = imageSettled decade out (app s)"
      by (auto simp: worker_settled_def Let_def split: if_splits worker.splits)
    have "batch_ok (batches s ! b)" using ok b by (auto simp: all_ok_def)
    from awaited_in_catalog [OF this w a] k show ?thesis
      by (simp add: ap settled_keys)
  next
    case (WorkerResumed b w)
    with ex k show ?thesis
      by (auto simp: worker_resumed_def worker_run_app split: if_splits)
  next
    case (BatchResolved b)
    with ex k show ?thesis by (auto simp: batch_resolved_def split: if_splits)
  next
    case (RegenerationSettled i out)
    with ex have i: "i < length (regenerations s)"
      and ap: "app s' = imageSettled (regenerations s ! i) out (app s)"
      by (auto simp: regeneration_settled_def split: if_splits)
    from i r have "regenerations s ! i \<in> set DECADES"
      by (auto simp: regs_ok_def)
    with k show ?thesis by (simp add: ap settled_keys)
  next
    case Rendered
    with ex k show ?thesis by auto
  qed (use q in simp_all)
  with ok' r' show ?thesis by (simp add: in_catalog_order_def)
qed

lemma catalog_order_run:
  "in_catalog_order s \<Longrightarrow> \<forall>e\<in>set es. \<not> clearsStore e \<Longrightarrow> run s es = Some s' \<Longrightarrow>
   in_catalog_order s'"
proof (induction es arbitrary: s)
  case Nil
  then show ?case by simp
next
  case (Cons e es)
  then show ?case by (auto split: option.splits dest: catalog_order_step)
qed

lemma catalog_order_start:
  assumes "run initial es0 = Some s0" "truthy (uploadedImage (rendered s0))"
  shows "in_catalog_order (handleGenerateClick s0)"
proof -
  have e: "exec s0 GenerateClick = Some (handleGenerateClick s0)" by simp
  have "all_ok s0" by (rule run_ok [OF initial_ok assms(1)])
  then have 1: "all_ok (handleGenerateClick s0)" using e by (rule exec_ok)
  have "regs_ok initial" by (simp add: regs_ok_def initial_def)
  then have "regs_ok s0" using assms(1) by (rule run_regs_ok)
  then have 2: "regs_ok (handleGenerateClick s0)" using e by (rule exec_regs_ok)
  have "map fst (generatedImages (app (handleGenerateClick s0))) = DECADES"
    by (simp add: handleGenerateClick_app [OF assms(2)] initialImages_eq comp_def)
  with 1 2 show ?thesis by (simp add: in_catalog_order_def)
qed

lemma shareFileName_catalog:
  "map fst imageData = DECADES \<Longrightarrow>
   shareFileName imageData = ''past-forward-album-1950s-2000s.jpg''"
  by (simp add: shareFileName_def firstKey_def lastKey_def DECADES_def)

section \<open>A batch cannot get stuck\<close>

lemma stepsLeft_update:
  "w < length ws \<Longrightarrow> stepsLeft (ws[w := x]) + stepsLeft [ws ! w] = stepsLeft ws + stepsLeft [x]"
proof (induction ws arbitrary: w)
  case Nil
  then show ?case by simp
next
  case (Cons y ws)
  show ?case
  proof (cases w)
    case 0
    then show ?thesis by (cases y; cases x) simp_all
  next
    case (Suc v)
    with Cons.prems have "v < length ws" by simp
    from Cons.IH [OF this] Suc show ?thesis by (cases y) simp_all
  qed
qed

lemma workers_cases:
  "(\<exists>w decade. w < length ws \<and> ws ! w = Awaiting decade)
   \<or> (\<exists>w. w < length ws \<and> ws ! w = Running)
   \<or> list_all (\<lambda>w. w = Finished) ws"
proof (induction ws)
  case Nil
  then show ?case by simp
next
  case (Cons x ws)
  show ?case
  proof (cases x)
    case Running
    then have "0 < length (x # ws) \<and> (x # ws) ! 0 = Running" by simp
    then show ?thesis by blast
  next
    case (Awaiting decade)
    then have "0 < length (x # ws) \<and> (x # ws) ! 0 = Awaiting decade" by simp
    then show ?thesis by blast
  next
    case Finished
    from Cons.IH show ?thesis
    proof (elim disjE exE conjE)
      fix w decade assume "w < length ws" "ws ! w = Awaiting decade"
      then have "Suc w < length (x # ws) \<and> (x # ws) ! Suc w = Awaiting decade" by simp
      then show ?thesis by blast
    next
      fix w assume "w < length ws" "ws ! w = Running"
      then have "Suc w < length (x # ws) \<and> (x # ws) ! Suc w = Running" by simp
      then show ?thesis by blast
    next
      assume "list_all (\<lambda>w. w = Finished) ws"
      with Finished show ?thesis by simp
    qed
  qed
qed

lemma batch_can_step:
  assumes "b < length (batches s)" "\<not> resolved (batches s ! b)"
  shows "\<exists>e. ownEvent b e \<and> exec s e \<noteq> None"
proof -
  let ?ws = "workers (batches s ! b)"
  from workers_cases [of ?ws] show ?thesis
  proof (elim disjE exE conjE)
    fix w decade assume "w < length ?ws" "?ws ! w = Awaiting decade"
    with assms have "ownEvent b (WorkerSettled b w (Rejected None))
        \<and> exec s (WorkerSettled b w (Rejected None)) \<noteq> None"
      by (simp add: worker_settled_def Let_def)
    then show ?thesis by blast
  next
    fix w assume "w < length ?ws" "?ws ! w = Running"
    with assms have "ownEvent b (WorkerResumed b w) \<and> exec s (WorkerResumed b w) \<noteq> None"
      by (simp add: worker_resumed_def)
    then show ?thesis by blast
  next
    assume "list_all (\<lambda>w. w = Finished) ?ws"
    with assms have "ownEvent b (BatchResolved b) \<and> exec s (BatchResolved b) \<noteq> None"
      by (simp add: batch_resolved_def)
    then show ?thesis by blast
  qed
qed

lemma own_step_decreases:
  assumes ok: "batch_ok (batches s ! b)" and b: "b < length (batches s)"
    and o: "ownEvent b e" and ex: "exec s e = Some s'"
  shows "batchMeasure (batches s' ! b) < batchMeasure (batches s ! b)"
proof (cases e)
  case (WorkerSettled b' w out)
  with o have [simp]: "b' = b" by simp
  from ex WorkerSettled obtain decade where
    w: "w < length (workers (batches s ! b))"
    and a: "workers (batches s ! b) ! w = Awaiting decade"
    and bs: "batches s' = (batches s)[b := (batches s ! b)\<lparr>workers := (workers (batches s ! b))[w := Running],
                completed := completed (batches s ! b) @ [(w, decade)]\<rparr>]"
    by (auto simp: worker_settled_def Let_def split: if_splits worker.splits)
  from stepsLeft_update [OF w, of Running] a b show ?thesis
    by (simp add: bs batchMeasure_def)
next
  case (WorkerResumed b' w)
  with o have [simp]: "b' = b" by simp
  from ex WorkerResumed have
    w: "w < length (workers (batches s ! b))"
    and r: "workers (batches s ! b) ! w = Running"
    and bs: "batches s' = (batches s)[b := worker_loop w (batches s ! b)]"
    by (auto simp: worker_resumed_def worker_run_batches split: if_splits)
  show ?thesis
  proof (cases "decadesQueue (batches s ! b)")
    case Nil
    from stepsLeft_update [OF w, of Finished] r b show ?thesis
      by (simp add: bs batchMeasure_def worker_loop_Nil [OF Nil])
  next
    case (Cons decade q)
    have tr: "decade \<noteq> []" using batch_ok_queue_truthy [OF ok] Cons by auto
    from stepsLeft_update [OF w, of "Awaiting decade"] r b Cons show ?thesis
      by (simp add: bs batchMeasure_def worker_loop_Cons [OF Cons tr])
  qed
next
  case (BatchResolved b')
  with o have [simp]: "b' = b" by simp
  from ex BatchResolved b show ?thesis
    by (auto simp: batch_resolved_def batchMeasure_def split: if_splits)
qed (use o in simp_all)

section \<open>Properties\<close>

text \<open>
  C4. Regenerating an identifier whose status is \<open>pending\<close> is to change
  nothing and to make no generator call; the comment at the guard of
  \<open>handleRegenerateDecade\<close> says so too (``Prevent re-triggering if a
  generation is already in progress''). The guard reads the
  \<open>generatedImages\<close> the render captured, so it refuses when the entry is
  \<open>pending\<close> there. The code evaluated where it does not refuse. First, a
  second call from the same render: the first call has set \<open>1950s\<close> to
  \<open>pending\<close> and its generator call is in flight, the render still holds
  \<open>done\<close>, and the second call makes another generator call, the eighth,
  two regenerations of \<open>1950s\<close> now being in flight; after a re-render
  the same call is refused. Second, an identifier without an entry, which the
  cards show as \<open>pending\<close>: a generation is started for it.
\<close>

theorem regenerate_twice_in_one_render:
  "run initial (batch_trace @ [Rendered, RegenerateDecade ''1950s'']) = Some shaken_once
   \<and> statusOf (app shaken_once) ''1950s'' = Some Pending
   \<and> statusOf (rendered shaken_once) ''1950s'' = Some Done
   \<and> regenerations shaken_once = [''1950s'']
   \<and> length (calls shaken_once) = 7
   \<and> regenerations (handleRegenerateDecade ''1950s'' shaken_once) = [''1950s'', ''1950s'']
   \<and> length (calls (handleRegenerateDecade ''1950s'' shaken_once)) = 8
   \<and> handleRegenerateDecade ''1950s'' (shaken_once\<lparr>rendered := app shaken_once\<rparr>)
       = shaken_once\<lparr>rendered := app shaken_once\<rparr>
   \<and> run initial cleared_trace \<noteq> None
   \<and> appState (rendered (after cleared_trace)) = results_shown
   \<and> statusOf (rendered (after cleared_trace)) ''1950s'' = None
   \<and> statusOf (app (after cleared_trace)) ''1950s'' = None
   \<and> regenerations (handleRegenerateDecade ''1950s'' (after cleared_trace)) = [''1950s'']
   \<and> statusOf (app (handleRegenerateDecade ''1950s'' (after cleared_trace))) ''1950s'' = Some Pending"
  by code_simp



text \<open>
  C5. \<open>handleReset\<close> leaves the Result Store and the caption overrides empty,
  whatever they held. Whatever happens after a reset, once a source image is there
  the next \<open>handleGenerateClick\<close> sets the store to exactly the catalog's
  identifiers, each \<open>pending\<close>.
\<close>

theorem reset_clears_store:
  "generatedImages (handleReset a) = [] \<and> customCaptions (handleReset a) = []
   \<and> (run (s0\<lparr>app := handleReset (app s0)\<rparr>) es = Some s \<and> truthy (uploadedImage (rendered s))
        \<longrightarrow> generatedImages (app (handleGenerateClick s)) =
              map (\<lambda>decade. (decade, pendingImage)) DECADES)"
  by (simp add: handleReset_def handleGenerateClick_app initialImages_eq)

theorem reset_clears_store_witness:
  "generatedImages (app batch_finished) \<noteq> [] \<and> customCaptions (app batch_finished) \<noteq> []
   \<and> generatedImages (handleReset (app batch_finished)) = []
   \<and> customCaptions (handleReset (app batch_finished)) = []
   \<and> run (batch_finished\<lparr>app := handleReset (app batch_finished)\<rparr>)
          [FileLoaded (Some ''data:image/png;base64,BBBB''), Rendered] = Some reloaded
   \<and> truthy (uploadedImage (rendered reloaded))
   \<and> generatedImages (app (handleGenerateClick reloaded)) =
       map (\<lambda>decade. (decade, pendingImage)) DECADES"
proof -
  have before: "generatedImages (app batch_finished) \<noteq> [] \<and> customCaptions (app batch_finished) \<noteq> []"
    by code_simp
  have r: "run (batch_finished\<lparr>app := handleReset (app batch_finished)\<rparr>)
             [FileLoaded (Some ''data:image/png;base64,BBBB''), Rendered] = Some reloaded"
    by (simp add: reloaded_def)
  have t: "truthy (uploadedImage (rendered reloaded))"
    by (simp add: reloaded_def handleImageUpload_onloadend_def truthy_def)
  show ?thesis
    using before r t
      reset_clears_store [of "app batch_finished" batch_finished
        "[FileLoaded (Some ''data:image/png;base64,BBBB''), Rendered]" reloaded]
    by simp
qed

text \<open>
  C1, as the code has it. Take a batch that \<open>handleGenerateClick\<close> starts
  (a source image is there), and let anything happen until the code after
  \<open>await Promise.all(workers)\<close> has run, except that no regeneration and no
  other batch is started, no reset happens and no file is read in the meantime
  (generator calls of this and of earlier operations may settle in any order and
  with any outcome, captions may be edited). Then every identifier of the catalog
  has an entry with status \<open>done\<close> or \<open>error\<close>.
\<close>

theorem batch_leaves_no_pending:
  assumes "truthy (uploadedImage (rendered s))"
    and "run (handleGenerateClick s) es = Some s'"
    and "\<forall>e\<in>set es. \<not> interferes e"
    and "resolved (batches s' ! length (batches s))"
  shows "\<forall>decade\<in>set DECADES. isTerminal (app s') decade"
  using on_course_resolved [OF on_course_run [OF on_course_start [OF assms(1)] assms(3) assms(2)] assms(4)]
  by blast

theorem batch_leaves_no_pending_witness:
  "truthy (uploadedImage (rendered photo_loaded))
   \<and> run (handleGenerateClick photo_loaded) batch_steps = Some (after batch_trace)
   \<and> \<not> list_ex interferes batch_steps
   \<and> resolved (batches (after batch_trace) ! length (batches photo_loaded))
   \<and> list_all (isTerminal (app (after batch_trace))) DECADES"
proof -
  have h1: "truthy (uploadedImage (rendered photo_loaded))"
    by code_simp
  have h2: "run (handleGenerateClick photo_loaded) batch_steps = Some (after batch_trace)"
    by code_simp
  have h3: "\<forall>e\<in>set batch_steps. \<not> interferes e"
    by (simp add: batch_steps_def)
  have h4: "resolved (batches (after batch_trace) ! length (batches photo_loaded))"
    by code_simp
  from batch_leaves_no_pending [OF h1 h2 h3 h4]
  have "\<forall>decade\<in>set DECADES. isTerminal (app (after batch_trace)) decade" .
  with h1 h2 h3 h4 show ?thesis
    by (simp add: list_all_iff list_ex_iff)
qed

text \<open>
  Against C1 as the specification states it: the user regenerates a finished
  identifier while the batch is still running; \<open>handleRegenerateDecade\<close> only
  refuses an identifier that is \<open>pending\<close>. The batch has resolved, the
  results are shown, and \<open>1950s\<close> is \<open>pending\<close>.
\<close>

theorem regeneration_during_batch_counterexample:
  "run initial shaken_trace \<noteq> None
   \<and> resolved (batches (after shaken_trace) ! 0)
   \<and> appState (app (after shaken_trace)) = results_shown
   \<and> ''1950s'' \<in> set DECADES
   \<and> statusOf (app (after shaken_trace)) ''1950s'' = Some Pending
   \<and> \<not> isTerminal (app (after shaken_trace)) ''1950s''"
  by code_simp

text \<open>
  C2, as the code has it. In every state the program can reach, each batch has at
  most \<open>concurrencyLimit\<close> generator calls of its own in flight. The calls of
  \<open>handleRegenerateDecade\<close> do not go through the pool, so the number of
  calls in flight in all is bounded by \<open>concurrencyLimit\<close> for each batch
  plus one for each suspended regeneration.
\<close>

theorem pool_bounds_batch_calls:
  assumes "run initial es = Some s"
  shows "(\<forall>B\<in>set (batches s). length (awaited (workers B)) \<le> concurrencyLimit)
         \<and> length (inFlight s) \<le> concurrencyLimit * length (batches s) + length (regenerations s)"
proof -
  have ok: "all_ok s" by (rule run_ok [OF initial_ok assms])
  have "length (awaited (workers B)) \<le> concurrencyLimit" if "B \<in> set (batches s)" for B
    using awaited_length [of "workers B"] batch_okD(1) [of B] ok that by (simp add: all_ok_def)
  with inFlight_bound [OF ok] show ?thesis by (simp add: inFlight_def)
qed

theorem pool_bounds_batch_calls_witness:
  "run initial shaken_prefix = Some (after shaken_prefix)
   \<and> list_all (\<lambda>B. length (awaited (workers B)) \<le> concurrencyLimit) (batches (after shaken_prefix))
   \<and> length (inFlight (after shaken_prefix))
       \<le> concurrencyLimit * length (batches (after shaken_prefix))
          + length (regenerations (after shaken_prefix))"
proof -
  have h: "run initial shaken_prefix = Some (after shaken_prefix)"
    by code_simp
  from pool_bounds_batch_calls [OF h] h show ?thesis
    by (simp add: list_all_iff)
qed

text \<open>
  Against C2 as the specification states it: while the one batch is running, its
  two workers await \<open>1970s\<close> and \<open>1960s\<close> and a regeneration awaits \<open>1950s\<close>,
  three generator calls in flight and three identifiers \<open>pending\<close>.
\<close>

theorem regeneration_bypasses_pool_counterexample:
  "run initial shaken_prefix \<noteq> None
   \<and> length (batches (after shaken_prefix)) = 1
   \<and> \<not> resolved (batches (after shaken_prefix) ! 0)
   \<and> inFlight (after shaken_prefix) = [''1970s'', ''1960s'', ''1950s'']
   \<and> map (statusOf (app (after shaken_prefix))) (inFlight (after shaken_prefix))
       = [Some Pending, Some Pending, Some Pending]
   \<and> concurrencyLimit < length (inFlight (after shaken_prefix))"
  by code_simp

text \<open>
  C3. In every state the program can reach and for each batch: the identifiers
  its workers have shifted off the queue so far, in the order they were shifted,
  followed by what is left in the queue, are the catalog; so identifiers are
  claimed in catalog order, none is skipped and none is claimed twice. The
  generator calls its workers have made are exactly one for each claim, in that
  order, made by the worker that claimed, with the batch's image and the prompt
  for the identifier; no two of them have the same prompt. Once the batch has
  resolved, all of the catalog has been claimed, no call is outstanding, the
  \<open>processDecade\<close> calls that returned are exactly the claims, each
  identifier was processed by exactly one worker, and the batch has called the
  generator once for each identifier of the catalog, in catalog order.
\<close>

theorem every_identifier_claimed_once:
  assumes "run initial es = Some s" and "b < length (batches s)"
  shows "map snd (claimed (batches s ! b)) @ decadesQueue (batches s ! b) = DECADES
       \<and> distinct (map snd (claimed (batches s ! b)))
       \<and> batchCalls b (calls s)
           = map (\<lambda>(w, decade). (w, photo (batches s ! b), prompt decade)) (claimed (batches s ! b))
       \<and> distinct (map (\<lambda>(w, img, p). p) (batchCalls b (calls s)))
       \<and> (resolved (batches s ! b) \<longrightarrow>
            map snd (claimed (batches s ! b)) = DECADES
            \<and> awaited (workers (batches s ! b)) = []
            \<and> mset (completed (batches s ! b)) = mset (claimed (batches s ! b))
            \<and> (\<forall>decade\<in>set DECADES. \<exists>!w. (w, decade) \<in> set (completed (batches s ! b)))
            \<and> map (\<lambda>(w, img, p). p) (batchCalls b (calls s)) = map prompt DECADES)"
proof -
  let ?B = "batches s ! b"
  have ok: "batch_ok ?B"
    using run_ok [OF initial_ok assms(1)] assms(2) by (simp add: all_ok_def)
  have fifo: "map snd (claimed ?B) @ decadesQueue ?B = DECADES"
    by (rule batch_okD(2) [OF ok])
  have d: "distinct (map snd (claimed ?B))"
    using fifo DECADES_distinct by (metis distinct_append)
  have cs: "batchCalls b (calls s)
           = map (\<lambda>(w, decade). (w, photo ?B, prompt decade)) (claimed ?B)"
    using calls_okD [OF run_calls_ok [OF initial_calls_ok assms(1)], of b] assms(2)
    by (simp add: claimedCalls_def)
  have ps: "map (\<lambda>(w, img, p). p) (batchCalls b (calls s)) = map prompt (map snd (claimed ?B))"
    unfolding cs by (simp add: case_prod_beta comp_def)
  have dp: "distinct (map (\<lambda>(w, img, p). p) (batchCalls b (calls s)))"
    unfolding ps using d prompt_inj by (simp add: distinct_map inj_on_def inj_def)
  have r: "map snd (claimed ?B) = DECADES \<and> awaited (workers ?B) = []
           \<and> mset (completed ?B) = mset (claimed ?B)
           \<and> (\<forall>decade\<in>set DECADES. \<exists>!w. (w, decade) \<in> set (completed ?B))
           \<and> map (\<lambda>(w, img, p). p) (batchCalls b (calls s)) = map prompt DECADES"
    if "resolved ?B"
  proof -
    have f: "list_all (\<lambda>w. w = Finished) (workers ?B)"
      using batch_okD(4) [OF ok that] .
    have "workers ?B \<noteq> []"
      using batch_okD(1) [OF ok] by (auto simp: concurrencyLimit_def)
    with f have "Finished \<in> set (workers ?B)"
      by (cases "workers ?B") auto
    then have q: "decadesQueue ?B = []" by (rule batch_okD(3) [OF ok])
    with fifo have c: "map snd (claimed ?B) = DECADES" by simp
    have a: "awaited (workers ?B) = []" by (rule awaited_all_Finished [OF f])
    have "mset (map snd (completed ?B)) = mset (map snd (claimed ?B))"
      using batch_okD(5) [OF ok] a by simp
    from sub_mset_eq [OF batch_okD(6) [OF ok] this d]
    have m: "mset (completed ?B) = mset (claimed ?B)" .
    then have s: "set (completed ?B) = set (claimed ?B)" by (metis set_mset_mset)
    have inj: "inj_on snd (set (claimed ?B))"
      using d by (simp add: distinct_map)
    have u: "\<exists>!w. (w, decade) \<in> set (completed ?B)" if "decade \<in> set DECADES" for decade
    proof -
      from that c have "decade \<in> snd ` set (claimed ?B)" by (metis set_map)
      then obtain w where w: "(w, decade) \<in> set (claimed ?B)" by force
      have "v = w" if "(v, decade) \<in> set (claimed ?B)" for v
        using inj_onD [OF inj, of "(v, decade)" "(w, decade)"] w that by simp
      with w show ?thesis unfolding s by blast
    qed
    have p: "map (\<lambda>(w, img, p). p) (batchCalls b (calls s)) = map prompt DECADES"
      unfolding ps c ..
    show ?thesis
    proof (intro conjI ballI)
      show "map snd (claimed ?B) = DECADES" by (rule c)
      show "awaited (workers ?B) = []" by (rule a)
      show "mset (completed ?B) = mset (claimed ?B)" by (rule m)
      show "\<exists>!w. (w, decade) \<in> set (completed ?B)" if "decade \<in> set DECADES" for decade
        using that by (rule u)
      show "map (\<lambda>(w, img, p). p) (batchCalls b (calls s)) = map prompt DECADES" by (rule p)
    qed
  qed
  from fifo d cs dp r show ?thesis by blast
qed

theorem every_identifier_claimed_once_witness:
  "run initial batch_trace = Some (after batch_trace)
   \<and> 0 < length (batches (after batch_trace))
   \<and> resolved (batches (after batch_trace) ! 0)
   \<and> map snd (claimed (batches (after batch_trace) ! 0)) = DECADES
   \<and> mset (completed (batches (after batch_trace) ! 0)) = mset (claimed (batches (after batch_trace) ! 0))
   \<and> map (\<lambda>(w, img, p). p) (batchCalls 0 (calls (after batch_trace))) = map prompt DECADES
   \<and> length (calls (after batch_trace)) = 6"
proof -
  have h1: "run initial batch_trace = Some (after batch_trace)"
    by code_simp
  have h2: "0 < length (batches (after batch_trace))"
    by code_simp
  have h3: "resolved (batches (after batch_trace) ! 0)"
    by code_simp
  have h4: "length (calls (after batch_trace)) = 6"
    by code_simp
  from every_identifier_claimed_once [OF h1 h2] h1 h2 h3 h4 show ?thesis
    by blast
qed

text \<open>
  C8. In every state the program can reach and for every event that can happen
  there (a worker's call settling, a regeneration starting or settling, a reset,
  a batch starting, ...): afterwards every entry of the Result Store has its
  \<open>url\<close> exactly when its status is \<open>done\<close> and its \<open>error\<close>
  exactly when its status is \<open>error\<close>, never both; and every entry is the
  one it was before, or is gone, or is one of the three object literals as a
  whole (no write keeps a field of the old entry).
\<close>

theorem entries_stay_well_formed:
  assumes "run initial es = Some s" and "exec s e = Some s'"
  shows "(\<forall>(decade, im)\<in>set (generatedImages (app s')). wellFormed im)
       \<and> (\<forall>k. lookup (generatedImages (app s')) k = lookup (generatedImages (app s)) k
             \<or> lookup (generatedImages (app s')) k = None
             \<or> lookup (generatedImages (app s')) k = Some pendingImage
             \<or> (\<exists>u. lookup (generatedImages (app s')) k = Some (doneImage u))
             \<or> (\<exists>m. lookup (generatedImages (app s')) k = Some (errorImage m)))"
proof -
  have "entries_ok (app initial)"
    by (simp add: entries_ok_def initial_def initialState_def)
  from exec_entries_ok [OF run_entries_ok [OF this assms(1)] assms(2)]
  have "\<forall>(decade, im)\<in>set (generatedImages (app s')). wellFormed im"
    by (simp add: entries_ok_def)
  with exec_whole_entry [OF assms(2)] show ?thesis by blast
qed

theorem entries_stay_well_formed_witness:
  "run initial [FileLoaded (Some ''data:image/png;base64,AAAA''), Rendered, GenerateClick] = Some batch_started
   \<and> exec batch_started (WorkerSettled 0 0 (Rejected (Some ''quota exceeded''))) = Some first_failed
   \<and> list_all wellFormed (map snd (generatedImages (app first_failed)))
   \<and> lookup (generatedImages (app first_failed)) ''1950s'' = Some (errorImage ''quota exceeded'')"
proof -
  have h1: "run initial [FileLoaded (Some ''data:image/png;base64,AAAA''), Rendered, GenerateClick]
            = Some batch_started"
    by code_simp
  have h2: "exec batch_started (WorkerSettled 0 0 (Rejected (Some ''quota exceeded''))) = Some first_failed"
    by code_simp
  have h3: "lookup (generatedImages (app first_failed)) ''1950s'' = Some (errorImage ''quota exceeded'')"
    by code_simp
  from entries_stay_well_formed [OF h1 h2]
  have "\<forall>(decade, im)\<in>set (generatedImages (app first_failed)). wellFormed im" by blast
  then have "list_all wellFormed (map snd (generatedImages (app first_failed)))"
    by (auto simp: list_all_iff)
  with h1 h2 h3 show ?thesis by simp
qed



text \<open>
  C6, as the code has it. When fewer entries than the catalog has identifiers are
  \<open>done\<close>, \<open>handleDownloadAlbum\<close> shows the notice and does nothing
  else: the compositor is not called. When at least as many are \<open>done\<close>,
  each with a truthy \<open>url\<close> (the keys of the store being distinct, as those
  of an object are), the compositor is called exactly once, with the image of
  every \<open>done\<close> identifier and the caption overrides; if it returns a blob,
  that blob and nothing else is handed to the user as
  \<open>past-forward-album.jpg\<close>; if it throws, the failure is logged, the error
  notice is shown and nothing is handed to the user. Either way
  \<open>isDownloading\<close> is \<open>false\<close> at the end.
\<close>

theorem album_refused_or_composed:
  "(doneCount s < length DECADES \<longrightarrow>
      handleDownloadAlbum env s = (s, [Alert ''Please wait for all images to finish generating.'']))
   \<and> (distinct (map fst (generatedImages s)) \<and> length DECADES \<le> doneCount s
        \<and> (\<forall>(decade, im)\<in>set (generatedImages s). status im = Done \<longrightarrow> truthy (url im)) \<longrightarrow>
        imageDataOf (generatedImages s)
          = map (\<lambda>(decade, im). (decade, case url im of Some u \<Rightarrow> u | None \<Rightarrow> []))
              (filter (\<lambda>(decade, im). status im = Done) (generatedImages s))
        \<and> map fst (imageDataOf (generatedImages s))
          = map fst (filter (\<lambda>(decade, im). status im = Done) (generatedImages s))
        \<and> composeCalls (snd (handleDownloadAlbum env s))
          = [(imageDataOf (generatedImages s), customCaptions s)]
        \<and> (\<forall>blob. createAlbumPage env (imageDataOf (generatedImages s)) (customCaptions s) = Inr blob \<longrightarrow>
              handleDownloadAlbum env s =
                (s\<lparr>isDownloading := False\<rparr>,
                 [CreateAlbumPage (imageDataOf (generatedImages s)) (customCaptions s),
                  Download blob ''past-forward-album.jpg'']))
        \<and> (\<forall>err. createAlbumPage env (imageDataOf (generatedImages s)) (customCaptions s) = Inl err \<longrightarrow>
              handleDownloadAlbum env s =
                (s\<lparr>isDownloading := False\<rparr>,
                 [CreateAlbumPage (imageDataOf (generatedImages s)) (customCaptions s),
                  ConsoleError ''Failed to create or download album:'',
                  Alert ''Sorry, there was an error creating your album. Please try again.''])
              \<and> downloads (snd (handleDownloadAlbum env s)) = []))"
proof (intro conjI impI)
  assume "doneCount s < length DECADES"
  from refused [OF this]
  show "handleDownloadAlbum env s = (s, [Alert ''Please wait for all images to finish generating.''])"
    by (simp add: handleDownloadAlbum_def)
next
  assume h: "distinct (map fst (generatedImages s)) \<and> length DECADES \<le> doneCount s
        \<and> (\<forall>(decade, im)\<in>set (generatedImages s). status im = Done \<longrightarrow> truthy (url im))"
  have f: "filter (\<lambda>(decade, im). status im = Done \<and> truthy (url im)) (generatedImages s)
           = filter (\<lambda>(decade, im). status im = Done) (generatedImages s)"
    using h by (intro filter_cong) auto
  show i: "imageDataOf (generatedImages s) =
           map (\<lambda>(decade, im). (decade, case url im of Some u \<Rightarrow> u | None \<Rightarrow> []))
             (filter (\<lambda>(decade, im). status im = Done) (generatedImages s))"
    using imageDataOf_distinct [of "generatedImages s"] h f by simp
  show k: "map fst (imageDataOf (generatedImages s))
          = map fst (filter (\<lambda>(decade, im). status im = Done) (generatedImages s))"
    unfolding i by (simp add: case_prod_beta comp_def)
  have "length (imageDataOf (generatedImages s)) = doneCount s"
    unfolding i by (simp add: doneCount_def)
  with h have p: "prepareAlbumData s = ([], Some (imageDataOf (generatedImages s)))"
    by (simp add: prepareAlbumData_def Let_def)
  show "composeCalls (snd (handleDownloadAlbum env s))
          = [(imageDataOf (generatedImages s), customCaptions s)]"
    by (rule accepted_download(2) [OF p])
  show "\<forall>blob. createAlbumPage env (imageDataOf (generatedImages s)) (customCaptions s) = Inr blob \<longrightarrow>
              handleDownloadAlbum env s =
                (s\<lparr>isDownloading := False\<rparr>,
                 [CreateAlbumPage (imageDataOf (generatedImages s)) (customCaptions s),
                  Download blob ''past-forward-album.jpg''])"
    using accepted_download_whole(1) [OF p] by blast
  show "\<forall>err. createAlbumPage env (imageDataOf (generatedImages s)) (customCaptions s) = Inl err \<longrightarrow>
              handleDownloadAlbum env s =
                (s\<lparr>isDownloading := False\<rparr>,
                 [CreateAlbumPage (imageDataOf (generatedImages s)) (customCaptions s),
                  ConsoleError ''Failed to create or download album:'',
                  Alert ''Sorry, there was an error creating your album. Please try again.''])
              \<and> downloads (snd (handleDownloadAlbum env s)) = []"
    using accepted_download_whole(2) [OF p] accepted_download(5) [OF p] by blast
qed

theorem album_refused_or_composed_witness:
  "doneCount (app batch_started) < length DECADES
   \<and> handleDownloadAlbum working_browser (app batch_started)
       = (app batch_started, [Alert ''Please wait for all images to finish generating.''])
   \<and> distinct (map fst (generatedImages (app batch_finished)))
   \<and> length DECADES \<le> doneCount (app batch_finished)
   \<and> list_all (\<lambda>(decade, im). truthy (url im)) (generatedImages (app batch_finished))
   \<and> imageDataOf (generatedImages (app batch_finished))
       = [(''1950s'', ''data:image/png;base64,1950''), (''1960s'', ''data:image/png;base64,1960''),
          (''1970s'', ''data:image/png;base64,1970''), (''1980s'', ''data:image/png;base64,1980''),
          (''1990s'', ''data:image/png;base64,1990''), (''2000s'', ''data:image/png;base64,2000'')]
   \<and> handleDownloadAlbum working_browser (app batch_finished)
       = ((app batch_finished)\<lparr>isDownloading := False\<rparr>,
          [CreateAlbumPage (imageDataOf (generatedImages (app batch_finished)))
             (customCaptions (app batch_finished)),
           Download ''data:image/jpeg;base64,ALBUM'' ''past-forward-album.jpg''])
   \<and> handleDownloadAlbum failing_browser (app batch_finished)
       = ((app batch_finished)\<lparr>isDownloading := False\<rparr>,
          [CreateAlbumPage (imageDataOf (generatedImages (app batch_finished)))
             (customCaptions (app batch_finished)),
           ConsoleError ''Failed to create or download album:'',
           Alert ''Sorry, there was an error creating your album. Please try again.''])"
proof -
  have h1: "doneCount (app batch_started) < length DECADES"
    by code_simp
  have h2: "distinct (map fst (generatedImages (app batch_finished)))"
    by code_simp
  have h3: "length DECADES \<le> doneCount (app batch_finished)"
    by code_simp
  have h4: "list_all (\<lambda>(decade, im). truthy (url im)) (generatedImages (app batch_finished))"
    by code_simp
  then have h4': "\<forall>(decade, im)\<in>set (generatedImages (app batch_finished)).
                    status im = Done \<longrightarrow> truthy (url im)"
    by (auto simp: list_all_iff)
  have h5: "createAlbumPage working_browser (imageDataOf (generatedImages (app batch_finished)))
              (customCaptions (app batch_finished)) = Inr ''data:image/jpeg;base64,ALBUM''"
    by (simp add: working_browser_def)
  have h6: "createAlbumPage failing_browser (imageDataOf (generatedImages (app batch_finished)))
              (customCaptions (app batch_finished)) = Inl ''Error''"
    by (simp add: failing_browser_def)
  have h7: "imageDataOf (generatedImages (app batch_finished))
       = [(''1950s'', ''data:image/png;base64,1950''), (''1960s'', ''data:image/png;base64,1960''),
          (''1970s'', ''data:image/png;base64,1970''), (''1980s'', ''data:image/png;base64,1980''),
          (''1990s'', ''data:image/png;base64,1990''), (''2000s'', ''data:image/png;base64,2000'')]"
    by code_simp
  from album_refused_or_composed [of "app batch_started" working_browser] h1
  have a: "handleDownloadAlbum working_browser (app batch_started)
       = (app batch_started, [Alert ''Please wait for all images to finish generating.''])"
    by blast
  from album_refused_or_composed [of "app batch_finished" working_browser] h2 h3 h4' h5
  have b: "handleDownloadAlbum working_browser (app batch_finished)
       = ((app batch_finished)\<lparr>isDownloading := False\<rparr>,
          [CreateAlbumPage (imageDataOf (generatedImages (app batch_finished)))
             (customCaptions (app batch_finished)),
           Download ''data:image/jpeg;base64,ALBUM'' ''past-forward-album.jpg''])"
    by blast
  from album_refused_or_composed [of "app batch_finished" failing_browser] h2 h3 h4' h6
  have c: "handleDownloadAlbum failing_browser (app batch_finished)
       = ((app batch_finished)\<lparr>isDownloading := False\<rparr>,
          [CreateAlbumPage (imageDataOf (generatedImages (app batch_finished)))
             (customCaptions (app batch_finished)),
           ConsoleError ''Failed to create or download album:'',
           Alert ''Sorry, there was an error creating your album. Please try again.''])"
    by blast
  show ?thesis
    by (intro conjI) (fact h1, fact a, fact h2, fact h3, fact h4, fact h7, fact b, fact c)
qed

text \<open>
  Against C6 as the specification states it, in two ways. All six entries are
  \<open>done\<close> and
  \<open>createAlbumPage\<close> throws: the compositor was called, no blob is
  produced. And all six entries are \<open>done\<close>, one of them with the empty
  string as its \<open>url\<close>: \<open>prepareAlbumData\<close> does not count it and the
  request is refused.
\<close>

theorem album_not_composed_counterexample:
  "doneCount (app (after batch_trace)) = length DECADES
   \<and> composeCalls (snd (handleDownloadAlbum failing_browser (app (after batch_trace))))
       = [(imageDataOf (generatedImages (app (after batch_trace))), [])]
   \<and> downloads (snd (handleDownloadAlbum failing_browser (app (after batch_trace)))) = []
   \<and> run initial empty_url_trace \<noteq> None
   \<and> doneCount (app (after empty_url_trace)) = length DECADES
   \<and> handleDownloadAlbum working_browser (app (after empty_url_trace))
       = (app (after empty_url_trace), [Alert ''Please wait for all images to finish generating.''])"
  by code_simp

text \<open>
  C9, as the code has it. Take a batch started in a state the program can reach,
  and let anything happen afterwards except a reset and the arrival of a newly
  read photo, the two events that empty the Result Store: calls settle in any
  order, identifiers are regenerated, further batches are started. If then every
  entry is \<open>done\<close> with a truthy \<open>url\<close>, the keys of the store are
  the catalog in its order, the album is accepted, and the file name
  \<open>handleShareAlbum\<close> computes, and passes to \<open>dataUrlToFile\<close> once
  the compositor has returned, is \<open>past-forward-album-1950s-2000s.jpg\<close>.
\<close>

theorem share_file_name:
  assumes "run initial es0 = Some s0"
    and "truthy (uploadedImage (rendered s0))"
    and "run (handleGenerateClick s0) es = Some s"
    and "\<forall>e\<in>set es. \<not> clearsStore e"
    and "\<forall>(decade, im)\<in>set (generatedImages (app s)). status im = Done \<and> truthy (url im)"
  shows "map fst (generatedImages (app s)) = DECADES
       \<and> prepareAlbumData (app s) = ([], Some (imageDataOf (generatedImages (app s))))
       \<and> map fst (imageDataOf (generatedImages (app s))) = DECADES
       \<and> shareFileName (imageDataOf (generatedImages (app s))) = ''past-forward-album-1950s-2000s.jpg''
       \<and> (\<forall>blob. createAlbumPage env (imageDataOf (generatedImages (app s))) (customCaptions (app s))
                   = Inr blob \<longrightarrow>
            fileNames (snd (handleShareAlbum env (app s))) = [''past-forward-album-1950s-2000s.jpg''])"
proof -
  let ?store = "generatedImages (app s)"
  have "in_catalog_order s"
    by (rule catalog_order_run [OF catalog_order_start [OF assms(1,2)] assms(4) assms(3)])
  then have k: "map fst ?store = DECADES" by (simp add: in_catalog_order_def)
  then have d: "distinct (map fst ?store)" by (simp add: DECADES_distinct)
  have f: "filter (\<lambda>(decade, im). status im = Done \<and> truthy (url im)) ?store = ?store"
    using assms(5) by (auto simp: filter_id_conv)
  have i: "imageDataOf ?store =
           map (\<lambda>(decade, im). (decade, case url im of Some u \<Rightarrow> u | None \<Rightarrow> [])) ?store"
    using imageDataOf_distinct [OF d] f by simp
  have ki: "map fst (imageDataOf ?store) = DECADES"
    unfolding i using k by (simp add: case_prod_beta comp_def)
  then have "length (imageDataOf ?store) = length DECADES"
    by (metis length_map)
  then have p: "prepareAlbumData (app s) = ([], Some (imageDataOf ?store))"
    by (simp add: prepareAlbumData_def Let_def)
  have n: "shareFileName (imageDataOf ?store) = ''past-forward-album-1950s-2000s.jpg''"
    by (rule shareFileName_catalog [OF ki])
  have "fileNames (snd (handleShareAlbum env (app s))) = [''past-forward-album-1950s-2000s.jpg'']"
    if "createAlbumPage env (imageDataOf ?store) (customCaptions (app s)) = Inr blob" for blob
    using accepted_download(6) [OF p that] n by simp
  with k p ki n show ?thesis by blast
qed

theorem share_file_name_witness:
  "run initial [FileLoaded (Some ''data:image/png;base64,AAAA''), Rendered] = Some photo_loaded
   \<and> truthy (uploadedImage (rendered photo_loaded))
   \<and> run (handleGenerateClick photo_loaded)
        (batch_steps @ [Rendered, RegenerateDecade ''1950s'',
                        RegenerationSettled 0 (Resolved ''data:image/png;base64,1951'')])
       = Some (after (batch_trace @ [Rendered, RegenerateDecade ''1950s'',
                        RegenerationSettled 0 (Resolved ''data:image/png;base64,1951'')]))
   \<and> \<not> list_ex clearsStore
        (batch_steps @ [Rendered, RegenerateDecade ''1950s'',
                        RegenerationSettled 0 (Resolved ''data:image/png;base64,1951'')])
   \<and> list_all (\<lambda>(decade, im). status im = Done \<and> truthy (url im))
        (generatedImages (app (after (batch_trace @ [Rendered, RegenerateDecade ''1950s'',
                        RegenerationSettled 0 (Resolved ''data:image/png;base64,1951'')]))))
   \<and> fileNames (snd (handleShareAlbum working_browser
        (app (after (batch_trace @ [Rendered, RegenerateDecade ''1950s'',
                        RegenerationSettled 0 (Resolved ''data:image/png;base64,1951'')])))))
       = [''past-forward-album-1950s-2000s.jpg'']"
  (is "?A \<and> ?B \<and> ?C \<and> ?D \<and> ?E \<and> ?F")
proof -
  let ?es = "batch_steps @ [Rendered, RegenerateDecade ''1950s'',
                        RegenerationSettled 0 (Resolved ''data:image/png;base64,1951'')]"
  let ?s = "after (batch_trace @ [Rendered, RegenerateDecade ''1950s'',
                        RegenerationSettled 0 (Resolved ''data:image/png;base64,1951'')])"
  have h1: ?A by code_simp
  have h2: ?B by code_simp
  have h3: ?C by code_simp
  have h4: "\<forall>e\<in>set ?es. \<not> clearsStore e" by (simp add: batch_steps_def)
  have h5: ?E by code_simp
  then have h5': "\<forall>(decade, im)\<in>set (generatedImages (app ?s)). status im = Done \<and> truthy (url im)"
    by (simp add: list_all_iff)
  have h6: "createAlbumPage working_browser (imageDataOf (generatedImages (app ?s)))
              (customCaptions (app ?s)) = Inr ''data:image/jpeg;base64,ALBUM''"
    by (simp add: working_browser_def)
  from share_file_name [OF h1 h2 h3 h4 h5', of working_browser] h6
  have h7: ?F by blast
  have h4': ?D using h4 by (simp add: list_ex_iff)
  show ?thesis
    by (intro conjI) (fact h1, fact h2, fact h3, fact h4', fact h5, fact h7)
qed

text \<open>
  Against C9 as the specification states it: the names are the first and the
  last key of the store in the order the keys were created, not in catalog order. Here the store
  is emptied while the batch is running (a second file finishes loading), the
  entries are created anew in the order the calls settle, and with all six
  identifiers \<open>done\<close> and the results shown the file is named after
  \<open>1960s\<close> and \<open>1990s\<close>.
\<close>

theorem share_file_name_counterexample:
  "run initial late_photo_trace \<noteq> None
   \<and> appState (app (after late_photo_trace)) = results_shown
   \<and> map (statusOf (app (after late_photo_trace))) DECADES
       = [Some Done, Some Done, Some Done, Some Done, Some Done, Some Done]
   \<and> map fst (generatedImages (app (after late_photo_trace)))
       = [''1960s'', ''1950s'', ''1980s'', ''1970s'', ''2000s'', ''1990s'']
   \<and> fileNames (snd (handleShareAlbum working_browser (app (after late_photo_trace))))
       = [''past-forward-album-1960s-1990s.jpg'']"
  by code_simp

text \<open>
  Progress of a batch. In every state the program can reach, a batch that has not
  resolved can take a step of its own: one of its generator calls can settle, or
  one of its workers can be resumed, or all have returned and
  \<open>Promise.all\<close> resolves. Each step of its own brings it nearer to the
  end, whatever else happens in between: once every call it makes settles, the
  batch resolves after finitely many steps.
\<close>

theorem batch_makes_progress:
  assumes "run initial es = Some s" and "b < length (batches s)"
  shows "(\<not> resolved (batches s ! b) \<longrightarrow> (\<exists>e. ownEvent b e \<and> exec s e \<noteq> None))
       \<and> (\<forall>e s'. ownEvent b e \<and> exec s e = Some s' \<longrightarrow>
             batchMeasure (batches s' ! b) < batchMeasure (batches s ! b))"
proof -
  have "batch_ok (batches s ! b)"
    using run_ok [OF initial_ok assms(1)] assms(2) by (simp add: all_ok_def)
  with batch_can_step [OF assms(2)] own_step_decreases [OF _ assms(2)] show ?thesis
    by blast
qed

theorem batch_makes_progress_witness:
  "run initial [FileLoaded (Some ''data:image/png;base64,AAAA''), Rendered, GenerateClick] = Some batch_started
   \<and> 0 < length (batches batch_started)
   \<and> \<not> resolved (batches batch_started ! 0)
   \<and> ownEvent 0 (WorkerSettled 0 0 (Rejected (Some ''quota exceeded'')))
   \<and> exec batch_started (WorkerSettled 0 0 (Rejected (Some ''quota exceeded''))) = Some first_failed
   \<and> batchMeasure (batches first_failed ! 0) < batchMeasure (batches batch_started ! 0)"
proof -
  have h1: "run initial [FileLoaded (Some ''data:image/png;base64,AAAA''), Rendered, GenerateClick]
            = Some batch_started"
    by code_simp
  have h2: "0 < length (batches batch_started)" by code_simp
  have h3: "\<not> resolved (batches batch_started ! 0)" by code_simp
  have h4: "ownEvent 0 (WorkerSettled 0 0 (Rejected (Some ''quota exceeded'')))" by simp
  have h5: "exec batch_started (WorkerSettled 0 0 (Rejected (Some ''quota exceeded''))) = Some first_failed"
    by code_simp
  from batch_makes_progress [OF h1 h2] h4 h5
  have h6: "batchMeasure (batches first_failed ! 0) < batchMeasure (batches batch_started ! 0)"
    by blast
  show ?thesis
    by (intro conjI) (fact h1, fact h2, fact h3, fact h4, fact h5, fact h6)
qed

end
